theory Spec2Isabelle
  imports Main "HOL-Library.Finite_Map" "HOL-Library.List_Lexorder" "HOL-Library.Char_ord"
begin

section \<open>Go strings, bytes and UTF-8\<close>

text \<open>
  A Go \<^verbatim>\<open>string\<close> is a sequence of bytes, not necessarily well-formed UTF-8; it is
  modelled by \<^typ>\<open>string\<close>, whose characters are bytes. The functions of this section
  and of the two following ones model the parts of Go's standard library that
  \<^verbatim>\<open>json_storage.go\<close> calls (\<^verbatim>\<open>unicode/utf8\<close>, \<^verbatim>\<open>time\<close>,
  \<^verbatim>\<open>encoding/json\<close>), following the library's documented behaviour on the types the
  store uses.
\<close>

definition dq :: char where
  "dq = CHR 0x22"

definition bs :: char where
  "bs = CHR 0x5C"

definition nl :: char where
  "nl = CHR 0x0A"

definition between :: "nat \<Rightarrow> nat \<Rightarrow> char \<Rightarrow> bool" where
  "between lo hi c \<longleftrightarrow> lo \<le> of_char c \<and> (of_char c :: nat) \<le> hi"

text \<open>
  \<open>tail_ok lo hi n r\<close>: the bytes after a leading byte are a second byte in
  \<open>[lo, hi]\<close> followed by \<open>n\<close> continuation bytes (the accept ranges of
  \<^verbatim>\<open>utf8.DecodeRune\<close>).
\<close>

definition tail_ok :: "nat \<Rightarrow> nat \<Rightarrow> nat \<Rightarrow> string \<Rightarrow> bool" where
  "tail_ok lo hi n r =
     (case r of
        [] \<Rightarrow> False
      | b1 # r' \<Rightarrow> between lo hi b1 \<and> n \<le> length r' \<and> list_all (between 0x80 0xBF) (take n r'))"

text \<open>
  The width of the well-formed UTF-8 encoding at the head of a string; \<open>0\<close> when the
  head is not one (there \<^verbatim>\<open>utf8.DecodeRune\<close> returns \<^verbatim>\<open>RuneError\<close> with
  width 1, or width 0 on the empty string).
\<close>

definition rune_width :: "string \<Rightarrow> nat" where
  "rune_width s =
     (case s of
        [] \<Rightarrow> 0
      | b0 # r \<Rightarrow>
          (let x = (of_char b0 :: nat) in
           if x < 0x80 then 1
           else if x < 0xC2 then 0
           else if x \<le> 0xDF then (if tail_ok 0x80 0xBF 0 r then 2 else 0)
           else if x = 0xE0 then (if tail_ok 0xA0 0xBF 1 r then 3 else 0)
           else if x = 0xED then (if tail_ok 0x80 0x9F 1 r then 3 else 0)
           else if x \<le> 0xEF then (if tail_ok 0x80 0xBF 1 r then 3 else 0)
           else if x = 0xF0 then (if tail_ok 0x90 0xBF 2 r then 4 else 0)
           else if x \<le> 0xF3 then (if tail_ok 0x80 0xBF 2 r then 4 else 0)
           else if x = 0xF4 then (if tail_ok 0x80 0x8F 2 r then 4 else 0)
           else 0))"

text \<open>\<^verbatim>\<open>utf8.ValidString\<close>.\<close>

fun utf8_valid :: "string \<Rightarrow> bool" where
  "utf8_valid [] = True"
| "utf8_valid (b # s) =
     (let w = rune_width (b # s) in w \<noteq> 0 \<and> utf8_valid (drop (w - 1) s))"

text \<open>
  \<^verbatim>\<open>utf8.EncodeRune\<close>: surrogate halves and values above U+10FFFF are encoded as
  U+FFFD.
\<close>

definition RuneError :: nat where
  "RuneError = 0xFFFD"

definition EncodeRune :: "nat \<Rightarrow> string" where
  "EncodeRune r0 =
     (let r = (if (0xD800 \<le> r0 \<and> r0 \<le> 0xDFFF) \<or> 0x10FFFF < r0 then RuneError else r0) in
      if r < 0x80 then [char_of r]
      else if r < 0x800 then [char_of (0xC0 + r div 64), char_of (0x80 + r mod 64)]
      else if r < 0x10000 then
        [char_of (0xE0 + r div 4096), char_of (0x80 + r div 64 mod 64), char_of (0x80 + r mod 64)]
      else
        [char_of (0xF0 + r div 262144), char_of (0x80 + r div 4096 mod 64),
         char_of (0x80 + r div 64 mod 64), char_of (0x80 + r mod 64)])"

definition line_separator :: string where
  "line_separator = [CHR 0xE2, CHR 0x80, CHR 0xA8]"

definition paragraph_separator :: string where
  "paragraph_separator = [CHR 0xE2, CHR 0x80, CHR 0xA9]"

section \<open>JSON string encoding (\<^verbatim>\<open>encoding/json\<close>, \<^verbatim>\<open>appendString\<close>)\<close>

definition hex :: "nat \<Rightarrow> char" where
  "hex n = ''0123456789abcdef'' ! (n mod 16)"

text \<open>\<^verbatim>\<open>htmlSafeSet\<close>: the ASCII bytes that are written as they are.\<close>

definition htmlSafe :: "char \<Rightarrow> bool" where
  "htmlSafe b \<longleftrightarrow>
     0x20 \<le> (of_char b :: nat) \<and> (of_char b :: nat) < 0x80 \<and>
     b \<noteq> dq \<and> b \<noteq> bs \<and> b \<noteq> CHR ''<'' \<and> b \<noteq> CHR ''>'' \<and> b \<noteq> CHR ''&''"

text \<open>The escape sequence of an ASCII byte outside \<open>htmlSafe\<close>.\<close>

definition escape_byte :: "char \<Rightarrow> string" where
  "escape_byte b =
     (if b = bs \<or> b = dq then [bs, b]
      else if b = CHR 0x08 then [bs, CHR ''b'']
      else if b = CHR 0x0C then [bs, CHR ''f'']
      else if b = CHR 0x0A then [bs, CHR ''n'']
      else if b = CHR 0x0D then [bs, CHR ''r'']
      else if b = CHR 0x09 then [bs, CHR ''t'']
      else [bs, CHR ''u'', CHR ''0'', CHR ''0'', hex (of_char b div 16), hex (of_char b mod 16)])"

text \<open>
  The loop of \<^verbatim>\<open>appendString\<close> (with \<^verbatim>\<open>escapeHTML\<close> set, as \<^verbatim>\<open>Marshal\<close>
  does), without the surrounding quotes: ASCII bytes are copied or escaped, a byte that
  does not start a well-formed encoding becomes the escape of U+FFFD, U+2028 and U+2029
  are escaped, and every other well-formed encoding is copied.
\<close>

fun escape :: "string \<Rightarrow> string" where
  "escape [] = []"
| "escape (b # s) =
     (if (of_char b :: nat) < 0x80 then
        (if htmlSafe b then b # escape s else escape_byte b @ escape s)
      else
        (let w = rune_width (b # s) in
         if w = 0 then [bs, CHR ''u'', CHR ''f'', CHR ''f'', CHR ''f'', CHR ''d''] @ escape s
         else if take 3 (b # s) = line_separator then
           [bs, CHR ''u'', CHR ''2'', CHR ''0'', CHR ''2'', CHR ''8''] @ escape (drop 2 s)
         else if take 3 (b # s) = paragraph_separator then
           [bs, CHR ''u'', CHR ''2'', CHR ''0'', CHR ''2'', CHR ''9''] @ escape (drop 2 s)
         else take w (b # s) @ escape (drop (w - 1) s)))"

definition appendString :: "string \<Rightarrow> string" where
  "appendString s = [dq] @ escape s @ [dq]"

section \<open>Errors\<close>

text \<open>
  The error values the store can hand to its caller:
  \<^item> \<open>AlreadyExists\<close> is \<^verbatim>\<open>errors.New("link alias already exists")\<close>;
  \<^item> \<open>NotFound\<close> is \<^verbatim>\<open>errors.New("link not found")\<close>;
  \<^item> \<open>PathError\<close> is the \<^verbatim>\<open>*fs.PathError\<close> of \<^verbatim>\<open>os.ReadFile\<close> and
    \<^verbatim>\<open>os.WriteFile\<close>;
  \<^item> \<open>MarshalerError\<close> is the \<^verbatim>\<open>*json.MarshalerError\<close> of a timestamp that
    \<^verbatim>\<open>Time.MarshalJSON\<close> refuses;
  \<^item> \<open>SyntaxError\<close> is the \<^verbatim>\<open>*json.SyntaxError\<close> of a document that is not JSON;
  \<^item> \<open>UnmarshalError\<close> stands for the errors of decoding a well-formed document into
    \<^verbatim>\<open>map[string]*link.Link\<close> (\<^verbatim>\<open>*json.UnmarshalTypeError\<close>, and the error of
    \<^verbatim>\<open>Time.UnmarshalJSON\<close>);
  \<^item> \<open>NilMapPanic\<close> is not a returned error but the run-time panic
    \<^verbatim>\<open>assignment to entry in nil map\<close>.
\<close>

datatype error =
    AlreadyExists
  | NotFound
  | PathError
  | MarshalerError
  | SyntaxError
  | UnmarshalError
  | NilMapPanic

section \<open>Timestamps (\<^verbatim>\<open>time.Time\<close>)\<close>

text \<open>
  A \<^verbatim>\<open>time.Time\<close> is modelled by what its methods \<^verbatim>\<open>Date\<close>, \<^verbatim>\<open>Clock\<close>,
  \<^verbatim>\<open>Nanosecond\<close> and \<^verbatim>\<open>Zone\<close> report: the calendar reading in the time's own
  location and the offset of that location from UTC, in seconds. The monotonic clock
  reading and the name of the location are not part of the model.
\<close>

record time =
  Year :: int
  Month :: nat
  Day :: nat
  Hour :: nat
  Minute :: nat
  Second :: nat
  Nanosecond :: nat
  ZoneOffset :: int

text \<open>The zero \<^verbatim>\<open>time.Time\<close>: January 1, year 1, 00:00:00 UTC.\<close>

definition zero_time :: time where
  "zero_time = \<lparr>Year = 1, Month = 1, Day = 1, Hour = 0, Minute = 0, Second = 0,
                 Nanosecond = 0, ZoneOffset = 0\<rparr>"

definition isLeap :: "int \<Rightarrow> bool" where
  "isLeap y \<longleftrightarrow> y mod 4 = 0 \<and> (y mod 100 \<noteq> 0 \<or> y mod 400 = 0)"

definition daysIn :: "nat \<Rightarrow> int \<Rightarrow> nat" where
  "daysIn m y =
     (if m = 2 then (if isLeap y then 29 else 28)
      else if m = 4 \<or> m = 6 \<or> m = 9 \<or> m = 11 then 30
      else 31)"

definition digit :: "nat \<Rightarrow> char" where
  "digit n = char_of (48 + n mod 10)"

fun dec :: "nat \<Rightarrow> string" where
  "dec n = (if n < 10 then [digit n] else dec (n div 10) @ [digit n])"

declare dec.simps [simp del]

text \<open>\<^verbatim>\<open>appendInt\<close>: decimal digits, zero-padded on the left to \<open>width\<close>.\<close>

definition appendInt :: "int \<Rightarrow> nat \<Rightarrow> string" where
  "appendInt x width =
     (let ds = dec (nat \<bar>x\<bar>) in
      (if x < 0 then ''-'' else []) @ replicate (width - length ds) (CHR ''0'') @ ds)"

text \<open>Go's integer division truncates towards zero.\<close>

definition quot :: "int \<Rightarrow> int \<Rightarrow> int" where
  "quot a b = sgn a * sgn b * (\<bar>a\<bar> div \<bar>b\<bar>)"

definition trimZeros :: "string \<Rightarrow> string" where
  "trimZeros s = rev (dropWhile (\<lambda>c. c = CHR ''0'') (rev s))"

text \<open>
  \<^verbatim>\<open>appendNano\<close> with the layout \<^verbatim>\<open>.999999999\<close>: nothing for zero nanoseconds,
  otherwise the nine digits without their trailing zeros.
\<close>

definition appendNano :: "nat \<Rightarrow> string" where
  "appendNano n = (if n = 0 then [] else trimZeros (CHR ''.'' # appendInt (int n) 9))"

text \<open>
  The zone of \<^verbatim>\<open>appendFormatRFC3339\<close>: \<^verbatim>\<open>Z\<close> for offset zero, otherwise the sign and
  the offset in hours and minutes (the seconds of the offset are dropped).
\<close>

definition appendZone :: "int \<Rightarrow> string" where
  "appendZone offset =
     (if offset = 0 then ''Z''
      else
        (let zone = quot offset 60 in
         (if zone < 0 then ''-'' else ''+'') @
         appendInt (quot \<bar>zone\<bar> 60) 2 @ '':'' @ appendInt (\<bar>zone\<bar> mod 60) 2))"

definition appendFormatRFC3339 :: "time \<Rightarrow> string" where
  "appendFormatRFC3339 t =
     appendInt (Year t) 4 @ ''-'' @ appendInt (int (Month t)) 2 @ ''-'' @
     appendInt (int (Day t)) 2 @ ''T'' @
     appendInt (int (Hour t)) 2 @ '':'' @ appendInt (int (Minute t)) 2 @ '':'' @
     appendInt (int (Second t)) 2 @ appendNano (Nanosecond t) @ appendZone (ZoneOffset t)"

definition isDigit :: "char \<Rightarrow> bool" where
  "isDigit c \<longleftrightarrow> between 48 57 c"

definition num2 :: "string \<Rightarrow> nat" where
  "num2 b = 10 * (of_char (b ! 0) - 48) + (of_char (b ! 1) - 48)"

text \<open>
  \<^verbatim>\<open>appendStrictRFC3339\<close>: the formatted text is refused when the year does not have
  exactly four digits or the hour of the zone offset is not below 24.
\<close>

definition appendStrictRFC3339 :: "time \<Rightarrow> error + string" where
  "appendStrictRFC3339 t =
     (let b = appendFormatRFC3339 t in
      if b ! 4 \<noteq> CHR ''-'' then Inl MarshalerError
      else if last b \<noteq> CHR ''Z'' \<and>
              (isDigit (b ! (length b - 6)) \<or> 24 \<le> num2 (drop (length b - 5) b))
        then Inl MarshalerError
      else Inr b)"

definition Time_MarshalJSON :: "time \<Rightarrow> error + string" where
  "Time_MarshalJSON t =
     (case appendStrictRFC3339 t of Inl e \<Rightarrow> Inl e | Inr b \<Rightarrow> Inr ([dq] @ b @ [dq]))"

definition atoi :: "string \<Rightarrow> nat" where
  "atoi s = foldl (\<lambda>a c. a * 10 + (of_char c - 48)) 0 s"

definition parseUint :: "string \<Rightarrow> nat \<Rightarrow> nat \<Rightarrow> nat option" where
  "parseUint s lo hi =
     (if list_all isDigit s \<and> lo \<le> atoi s \<and> atoi s \<le> hi then Some (atoi s) else None)"

text \<open>
  \<^verbatim>\<open>parseNanoseconds\<close> on the digits after the point: at most nine digits count, scaled
  to nanoseconds.
\<close>

definition parseNanoseconds :: "string \<Rightarrow> nat" where
  "parseNanoseconds ds = atoi (take 9 ds) * 10 ^ (9 - length (take 9 ds))"

text \<open>
  The fractional second, when the text goes on with a point and a digit: the
  nanoseconds and the text after the digits.
\<close>

definition parseFraction :: "string \<Rightarrow> nat \<times> string" where
  "parseFraction s1 =
     (if 2 \<le> length s1 \<and> s1 ! 0 = CHR ''.'' \<and> isDigit (s1 ! 1) then
        (parseNanoseconds (takeWhile isDigit (drop 1 s1)), dropWhile isDigit (drop 1 s1))
      else (0, s1))"

text \<open>The zone: \<^verbatim>\<open>Z\<close>, or a sign, two digits of hours, a colon and two digits of minutes.\<close>

definition parseZone :: "string \<Rightarrow> int option" where
  "parseZone s =
     (if s = ''Z'' then Some 0
      else if length s \<noteq> 6 then None
      else
        (case (parseUint (take 2 (drop 1 s)) 0 23, parseUint (take 2 (drop 4 s)) 0 59) of
           (Some hr, Some mm) \<Rightarrow>
             if (s ! 0 = CHR ''-'' \<or> s ! 0 = CHR ''+'') \<and> s ! 3 = CHR '':'' then
               Some ((if s ! 0 = CHR ''-'' then - 1 else 1) * (int hr * 60 + int mm) * 60)
             else None
         | _ \<Rightarrow> None))"

text \<open>
  \<^verbatim>\<open>parseRFC3339\<close>: the strict parser that \<^verbatim>\<open>Time.UnmarshalJSON\<close> tries first.
\<close>

definition parseRFC3339 :: "string \<Rightarrow> time option" where
  "parseRFC3339 s =
     (if length s < 19 then None
      else
        (case (parseUint (take 4 s) 0 9999, parseUint (take 2 (drop 5 s)) 1 12) of
           (Some y, Some mo) \<Rightarrow>
             (case (parseUint (take 2 (drop 8 s)) 1 (daysIn mo (int y)),
                    parseUint (take 2 (drop 11 s)) 0 23,
                    parseUint (take 2 (drop 14 s)) 0 59,
                    parseUint (take 2 (drop 17 s)) 0 59) of
                (Some d, Some h, Some mi, Some se) \<Rightarrow>
                  if \<not> (s ! 4 = CHR ''-'' \<and> s ! 7 = CHR ''-'' \<and> s ! 10 = CHR ''T'' \<and>
                        s ! 13 = CHR '':'' \<and> s ! 16 = CHR '':'') then None
                  else
                    (let (nsec, s2) = parseFraction (drop 19 s)
                     in case parseZone s2 of
                          None \<Rightarrow> None
                        | Some off \<Rightarrow>
                            Some \<lparr>Year = int y, Month = mo, Day = d, Hour = h, Minute = mi,
                                  Second = se, Nanosecond = nsec, ZoneOffset = off\<rparr>)
              | _ \<Rightarrow> None)
         | _ \<Rightarrow> None))"

text \<open>
  \<^verbatim>\<open>Time.UnmarshalJSON\<close> on the raw text of a JSON string (the bytes between the
  quotes, escapes not resolved, as the library passes them). When the strict parser
  refuses the text, the library falls back to the lenient \<^verbatim>\<open>time.Parse\<close>; that
  fallback is not modelled, and such a text is an error here.
\<close>

definition Time_UnmarshalJSON :: "string \<Rightarrow> error + time" where
  "Time_UnmarshalJSON raw =
     (case parseRFC3339 raw of None \<Rightarrow> Inl UnmarshalError | Some t \<Rightarrow> Inr t)"

section \<open>JSON documents: tokens and values\<close>

text \<open>
  \<^verbatim>\<open>json.Unmarshal\<close> first checks that the whole input is one well-formed JSON value
  and only then decodes it. The check is modelled by a tokenizer and a parser with an
  explicit stack, as the library's scanner has one; the parser returns the value with
  the raw text of its strings and numbers.
\<close>

datatype token =
    LBrace | RBrace | LBrack | RBrack | Comma | Colon
  | TString string | TNumber string | TTrue | TFalse | TNull

definition isSpace :: "char \<Rightarrow> bool" where
  "isSpace c \<longleftrightarrow> c = CHR '' '' \<or> c = CHR 0x09 \<or> c = CHR 0x0D \<or> c = CHR 0x0A"

definition isHex :: "char \<Rightarrow> bool" where
  "isHex c \<longleftrightarrow> between 48 57 c \<or> between 97 102 c \<or> between 65 70 c"

definition simple_escape :: "char \<Rightarrow> bool" where
  "simple_escape e \<longleftrightarrow>
     e = CHR ''b'' \<or> e = CHR ''f'' \<or> e = CHR ''n'' \<or> e = CHR ''r'' \<or> e = CHR ''t'' \<or>
     e = bs \<or> e = CHR ''/'' \<or> e = dq"

text \<open>
  The scanner inside a string, after the opening quote: the raw text up to the closing
  quote and the input after it. Control characters and unknown escapes are errors.
\<close>

fun scan_string :: "string \<Rightarrow> (string \<times> string) option" where
  "scan_string [] = None"
| "scan_string (c # s) =
     (if c = dq then Some ([], s)
      else if c = bs then
        (case s of
           [] \<Rightarrow> None
         | e # s' \<Rightarrow>
             if simple_escape e then
               (case scan_string s' of None \<Rightarrow> None | Some (r, t) \<Rightarrow> Some (c # e # r, t))
             else if e = CHR ''u'' \<and> 4 \<le> length s' \<and> list_all isHex (take 4 s') then
               (case scan_string (drop 4 s') of
                  None \<Rightarrow> None
                | Some (r, t) \<Rightarrow> Some (c # e # take 4 s' @ r, t))
             else None)
      else if (of_char c :: nat) < 0x20 then None
      else (case scan_string s of None \<Rightarrow> None | Some (r, t) \<Rightarrow> Some (c # r, t)))"

definition scan_int :: "string \<Rightarrow> (string \<times> string) option" where
  "scan_int s =
     (case s of
        [] \<Rightarrow> None
      | d # s1 \<Rightarrow>
          if d = CHR ''0'' then Some ([d], s1)
          else if isDigit d then Some (d # takeWhile isDigit s1, dropWhile isDigit s1)
          else None)"

definition scan_frac :: "string \<Rightarrow> (string \<times> string) option" where
  "scan_frac s =
     (case s of
        [] \<Rightarrow> Some ([], s)
      | p # s1 \<Rightarrow>
          if p = CHR ''.'' then
            (case s1 of
               [] \<Rightarrow> None
             | d # _ \<Rightarrow>
                 if isDigit d then Some (p # takeWhile isDigit s1, dropWhile isDigit s1)
                 else None)
          else Some ([], s))"

definition scan_sign :: "string \<Rightarrow> string \<times> string" where
  "scan_sign s =
     (case s of
        [] \<Rightarrow> ([], s)
      | c # s1 \<Rightarrow> if c = CHR ''+'' \<or> c = CHR ''-'' then ([c], s1) else ([], s))"

definition scan_exp :: "string \<Rightarrow> (string \<times> string) option" where
  "scan_exp s =
     (case s of
        [] \<Rightarrow> Some ([], s)
      | e # s1 \<Rightarrow>
          if e = CHR ''e'' \<or> e = CHR ''E'' then
            (case snd (scan_sign s1) of
               [] \<Rightarrow> None
             | d # s2 \<Rightarrow>
                 if isDigit d then
                   Some (e # fst (scan_sign s1) @ d # takeWhile isDigit s2, dropWhile isDigit s2)
                 else None)
          else Some ([], s))"

text \<open>A JSON number: optional minus, integer part, optional fraction, optional exponent.\<close>

definition scan_number :: "string \<Rightarrow> (string \<times> string) option" where
  "scan_number s =
     (let sg = (case s of [] \<Rightarrow> [] | c # _ \<Rightarrow> if c = CHR ''-'' then [c] else []) in
      case scan_int (drop (length sg) s) of
        None \<Rightarrow> None
      | Some (i, s1) \<Rightarrow>
          (case scan_frac s1 of
             None \<Rightarrow> None
           | Some (f, s2) \<Rightarrow>
               (case scan_exp s2 of
                  None \<Rightarrow> None
                | Some (e, s3) \<Rightarrow> Some (sg @ i @ f @ e, s3))))"

lemma scan_string_length:
  "scan_string s = Some (r, t) \<Longrightarrow> length t < length s"
proof (induction s arbitrary: r t rule: scan_string.induct)
  case 1
  then show ?case by simp
next
  case (2 c s)
  show ?case
  proof (cases "c = dq")
    case True
    with "2.prems" show ?thesis by simp
  next
    case notq: False
    show ?thesis
    proof (cases "c = bs")
      case True
      then obtain e s' where s: "s = e # s'"
        using "2.prems" notq by (cases s) auto
      show ?thesis
      proof (cases "simple_escape e")
        case True
        then obtain r' where "scan_string s' = Some (r', t)"
          using "2.prems" notq \<open>c = bs\<close> s by (auto split: option.splits)
        from "2.IH"(1)[OF notq \<open>c = bs\<close> s True this] show ?thesis
          using s by simp
      next
        case False
        then have u: "e = CHR ''u'' \<and> 4 \<le> length s' \<and> list_all isHex (take 4 s')"
          using "2.prems" notq \<open>c = bs\<close> s by (auto split: if_splits)
        then obtain r' where "scan_string (drop 4 s') = Some (r', t)"
          using "2.prems" notq \<open>c = bs\<close> s False by (auto split: option.splits)
        from "2.IH"(2)[OF notq \<open>c = bs\<close> s False u this] show ?thesis
          using s by simp
      qed
    next
      case False
      then have ctl: "\<not> (of_char c :: nat) < 0x20"
        using "2.prems" notq by (auto split: if_splits)
      then obtain r' where "scan_string s = Some (r', t)"
        using "2.prems" notq False by (auto split: option.splits)
      from "2.IH"(3)[OF notq False ctl this] show ?thesis by simp
    qed
  qed
qed

lemma length_dropWhile_less: "length (dropWhile P xs) < Suc (length xs)"
  by (simp add: length_dropWhile_le less_Suc_eq_le)

lemma scan_int_length: "scan_int s = Some (i, t) \<Longrightarrow> length t < length s"
  by (auto simp: scan_int_def length_dropWhile_less split: list.splits if_splits)

lemma scan_frac_length: "scan_frac s = Some (f, t) \<Longrightarrow> length t \<le> length s"
  by (auto simp: scan_frac_def length_dropWhile_le le_SucI split: list.splits if_splits)

lemma scan_sign_length: "length (snd (scan_sign s)) \<le> length s"
  by (auto simp: scan_sign_def split: list.splits)

lemma scan_exp_length: "scan_exp s = Some (e, t) \<Longrightarrow> length t \<le> length s"
proof -
  assume a: "scan_exp s = Some (e, t)"
  show ?thesis
  proof (cases s)
    case Nil
    with a show ?thesis by (simp add: scan_exp_def)
  next
    case (Cons x s1)
    show ?thesis
    proof (cases "x = CHR ''e'' \<or> x = CHR ''E''")
      case False
      with a Cons show ?thesis by (auto simp: scan_exp_def)
    next
      case True
      then obtain d s2 where d: "snd (scan_sign s1) = d # s2" and t: "t = dropWhile isDigit s2"
        using a Cons by (auto simp: scan_exp_def split: list.splits if_splits)
      have "length t \<le> length s2"
        using t by (simp add: length_dropWhile_le)
      moreover have "length (d # s2) \<le> length s1"
        using scan_sign_length[of s1] d by simp
      ultimately show ?thesis using Cons by simp
    qed
  qed
qed

lemma scan_number_length:
  assumes "scan_number s = Some (n, t)"
  shows "length t < length s"
proof -
  define sg where "sg = (case s of [] \<Rightarrow> [] | c # _ \<Rightarrow> if c = CHR ''-'' then [c] else [])"
  from assms obtain i s1 f s2 e where
    i: "scan_int (drop (length sg) s) = Some (i, s1)" and
    f: "scan_frac s1 = Some (f, s2)" and
    e: "scan_exp s2 = Some (e, t)"
    unfolding scan_number_def sg_def by (auto simp: Let_def split: option.splits)
  have "length s1 < length (drop (length sg) s)"
    using scan_int_length[OF i] .
  then have "length s1 < length s" by simp
  moreover have "length s2 \<le> length s1" using scan_frac_length[OF f] .
  moreover have "length t \<le> length s2" using scan_exp_length[OF e] .
  ultimately show ?thesis by simp
qed

function tokenize :: "string \<Rightarrow> token list option" where
  "tokenize [] = Some []"
| "tokenize (c # s) =
     (if isSpace c then tokenize s
      else if c = CHR ''{'' then map_option ((#) LBrace) (tokenize s)
      else if c = CHR ''}'' then map_option ((#) RBrace) (tokenize s)
      else if c = CHR ''['' then map_option ((#) LBrack) (tokenize s)
      else if c = CHR '']'' then map_option ((#) RBrack) (tokenize s)
      else if c = CHR '','' then map_option ((#) Comma) (tokenize s)
      else if c = CHR '':'' then map_option ((#) Colon) (tokenize s)
      else if c = dq then
        (case scan_string s of
           None \<Rightarrow> None
         | Some (raw, rest) \<Rightarrow> map_option ((#) (TString raw)) (tokenize rest))
      else if c = CHR ''-'' \<or> isDigit c then
        (case scan_number (c # s) of
           None \<Rightarrow> None
         | Some (n, rest) \<Rightarrow> map_option ((#) (TNumber n)) (tokenize rest))
      else if c = CHR ''t'' \<and> take 3 s = ''rue'' then map_option ((#) TTrue) (tokenize (drop 3 s))
      else if c = CHR ''f'' \<and> take 4 s = ''alse'' then map_option ((#) TFalse) (tokenize (drop 4 s))
      else if c = CHR ''n'' \<and> take 3 s = ''ull'' then map_option ((#) TNull) (tokenize (drop 3 s))
      else None)"
  by pat_completeness auto

termination
proof (relation "measure length", goal_cases)
  case 1
  show ?case by simp
next
  case (9 c s x2 x y)
  then show ?case using scan_string_length[of s x y] by simp
next
  case (10 c s x2 x y)
  then show ?case using scan_number_length[of "c # s" x y] by simp
qed simp_all

declare tokenize.simps [simp del]

datatype json =
    JNull
  | JBool bool
  | JNumber string
  | JString string
  | JArray "json list"
  | JObject "(string \<times> json) list"

text \<open>
  An open array with the elements read so far (latest first), or an open object with
  the members read so far and the key whose value is being read.
\<close>

datatype frame =
    InArray "json list"
  | InObject "(string \<times> json) list" string

definition maxNestingDepth :: nat where
  "maxNestingDepth = 10000"

text \<open>
  \<open>parse_value st ts\<close> reads a value at the head of \<open>ts\<close> inside the open
  containers \<open>st\<close>; \<open>parse_next st v ts\<close> continues after the value \<open>v\<close>. The whole
  token list has to be one value. Opening a container beyond \<open>maxNestingDepth\<close> is
  an error, as in the library's scanner.
\<close>

fun parse_value :: "frame list \<Rightarrow> token list \<Rightarrow> json option"
  and parse_next :: "frame list \<Rightarrow> json \<Rightarrow> token list \<Rightarrow> json option" where
  "parse_value st [] = None"
| "parse_value st (TNull # ts) = parse_next st JNull ts"
| "parse_value st (TTrue # ts) = parse_next st (JBool True) ts"
| "parse_value st (TFalse # ts) = parse_next st (JBool False) ts"
| "parse_value st (TNumber n # ts) = parse_next st (JNumber n) ts"
| "parse_value st (TString r # ts) = parse_next st (JString r) ts"
| "parse_value st (LBrack # ts) =
     (if maxNestingDepth \<le> length st then None
      else
        (case ts of
           RBrack # ts' \<Rightarrow> parse_next st (JArray []) ts'
         | _ \<Rightarrow> parse_value (InArray [] # st) ts))"
| "parse_value st (LBrace # ts) =
     (if maxNestingDepth \<le> length st then None
      else
        (case ts of
           RBrace # ts' \<Rightarrow> parse_next st (JObject []) ts'
         | TString k # Colon # ts' \<Rightarrow> parse_value (InObject [] k # st) ts'
         | _ \<Rightarrow> None))"
| "parse_value st (RBrace # ts) = None"
| "parse_value st (RBrack # ts) = None"
| "parse_value st (Comma # ts) = None"
| "parse_value st (Colon # ts) = None"
| "parse_next [] v ts = (if ts = [] then Some v else None)"
| "parse_next (InArray acc # st) v ts =
     (case ts of
        Comma # ts' \<Rightarrow> parse_value (InArray (v # acc) # st) ts'
      | RBrack # ts' \<Rightarrow> parse_next st (JArray (rev (v # acc))) ts'
      | _ \<Rightarrow> None)"
| "parse_next (InObject acc k # st) v ts =
     (case ts of
        Comma # TString k' # Colon # ts' \<Rightarrow> parse_value (InObject ((k, v) # acc) k' # st) ts'
      | RBrace # ts' \<Rightarrow> parse_next st (JObject (rev ((k, v) # acc))) ts'
      | _ \<Rightarrow> None)"

section \<open>JSON string decoding (\<^verbatim>\<open>unquoteBytes\<close>)\<close>

definition hexval :: "char \<Rightarrow> nat" where
  "hexval c =
     (if between 48 57 c then of_char c - 48
      else if between 97 102 c then of_char c - 87
      else of_char c - 55)"

text \<open>\<^verbatim>\<open>getu4\<close>: the code unit of a text that starts with a \<^verbatim>\<open>\u\<close> escape.\<close>

definition getu4 :: "string \<Rightarrow> nat option" where
  "getu4 s =
     (if 6 \<le> length s \<and> s ! 0 = bs \<and> s ! 1 = CHR ''u'' \<and> list_all isHex (take 4 (drop 2 s))
      then Some (foldl (\<lambda>a c. a * 16 + hexval c) 0 (take 4 (drop 2 s)))
      else None)"

text \<open>
  The raw text of a JSON string to the string it denotes. A surrogate escape that is not
  followed by its second half becomes U+FFFD. A byte sequence that is not well-formed
  UTF-8 is coerced: the library decodes a rune and encodes it again, which copies a
  well-formed encoding and writes U+FFFD for any other byte.
\<close>

fun unquote :: "string \<Rightarrow> string option" where
  "unquote [] = Some []"
| "unquote (c # s) =
     (if c = bs then
        (case s of
           [] \<Rightarrow> None
         | e # s' \<Rightarrow>
             if e = dq \<or> e = bs \<or> e = CHR ''/'' \<or> e = CHR 0x27 then
               map_option ((#) e) (unquote s')
             else if e = CHR ''b'' then map_option ((#) (CHR 0x08)) (unquote s')
             else if e = CHR ''f'' then map_option ((#) (CHR 0x0C)) (unquote s')
             else if e = CHR ''n'' then map_option ((#) (CHR 0x0A)) (unquote s')
             else if e = CHR ''r'' then map_option ((#) (CHR 0x0D)) (unquote s')
             else if e = CHR ''t'' then map_option ((#) (CHR 0x09)) (unquote s')
             else if e = CHR ''u'' then
               (case getu4 (c # s) of
                  None \<Rightarrow> None
                | Some rr \<Rightarrow>
                    if 0xD800 \<le> rr \<and> rr < 0xE000 then
                      (case getu4 (drop 4 s') of
                         None \<Rightarrow> map_option ((@) (EncodeRune RuneError)) (unquote (drop 4 s'))
                       | Some rr1 \<Rightarrow>
                           if rr < 0xDC00 \<and> 0xDC00 \<le> rr1 \<and> rr1 < 0xE000 then
                             map_option
                               ((@) (EncodeRune
                                      (0x10000 + (rr - 0xD800) * 0x400 + (rr1 - 0xDC00))))
                               (unquote (drop 10 s'))
                           else map_option ((@) (EncodeRune RuneError)) (unquote (drop 4 s')))
                    else map_option ((@) (EncodeRune rr)) (unquote (drop 4 s')))
             else None)
      else if c = dq \<or> (of_char c :: nat) < 0x20 then None
      else if (of_char c :: nat) < 0x80 then map_option ((#) c) (unquote s)
      else
        (let w = rune_width (c # s) in
         if w = 0 then map_option ((@) (EncodeRune RuneError)) (unquote s)
         else map_option ((@) (take w (c # s))) (unquote (drop (w - 1) s))))"

text \<open>
  \<^verbatim>\<open>foldName\<close>, as far as it can reach an ASCII name: ASCII letters fold to upper
  case, and the only other runes whose fold is an ASCII letter are U+017F (to \<open>S\<close>)
  and U+212A (to \<open>K\<close>). The folds of the remaining runes stay outside ASCII and are
  left as they are.
\<close>

fun foldName :: "string \<Rightarrow> string" where
  "foldName [] = []"
| "foldName (c # s) =
     (if between 97 122 c then char_of ((of_char c :: nat) - 32) # foldName s
      else if take 2 (c # s) = [CHR 0xC5, CHR 0xBF] then CHR ''S'' # foldName (drop 1 s)
      else if take 3 (c # s) = [CHR 0xE2, CHR 0x84, CHR 0xAA] then CHR ''K'' # foldName (drop 2 s)
      else c # foldName s)"

section \<open>Link records (\<^verbatim>\<open>internal/link/link.go\<close>)\<close>

record link =
  Alias :: string
  URL :: string
  Description :: string
  Category :: string
  CreatedAt :: time
  UpdatedAt :: time

text \<open>\<^verbatim>\<open>NewLink\<close>; \<open>now\<close> is the reading of \<^verbatim>\<open>time.Now()\<close>.\<close>

definition NewLink :: "time \<Rightarrow> string \<Rightarrow> string \<Rightarrow> string \<Rightarrow> string \<Rightarrow> link" where
  "NewLink now alias url description category =
     \<lparr>Alias = alias, URL = url, Description = description, Category = category,
      CreatedAt = now, UpdatedAt = now\<rparr>"

definition zero_link :: link where
  "zero_link = \<lparr>Alias = [], URL = [], Description = [], Category = [],
                 CreatedAt = zero_time, UpdatedAt = zero_time\<rparr>"

section \<open>The map \<^verbatim>\<open>map[string]*link.Link\<close>\<close>

text \<open>
  A value of the map is a pointer, which may be nil (\<open>None\<close>); the map itself may be
  the nil map, which reads as empty and panics on assignment. The model keeps the record
  a pointer refers to, not its address.
\<close>

datatype gomap =
    NilMap
  | GoMap "(string, link option) fmap"

definition entries :: "gomap \<Rightarrow> (string, link option) fmap" where
  "entries m = (case m of NilMap \<Rightarrow> fmempty | GoMap f \<Rightarrow> f)"

text \<open>\<^verbatim>\<open>v, exists := m[k]\<close>\<close>

definition map_lookup :: "gomap \<Rightarrow> string \<Rightarrow> link option option" where
  "map_lookup m k = fmlookup (entries m) k"

text \<open>\<^verbatim>\<open>m[k] = v\<close>; \<open>None\<close> is the panic on the nil map.\<close>

definition map_assign :: "gomap \<Rightarrow> string \<Rightarrow> link option \<Rightarrow> gomap option" where
  "map_assign m k v = (case m of NilMap \<Rightarrow> None | GoMap f \<Rightarrow> Some (GoMap (fmupd k v f)))"

text \<open>\<^verbatim>\<open>delete(m, k)\<close>\<close>

definition map_delete :: "gomap \<Rightarrow> string \<Rightarrow> gomap" where
  "map_delete m k = (case m of NilMap \<Rightarrow> NilMap | GoMap f \<Rightarrow> GoMap (fmdrop k f))"

section \<open>Decoding a document into the map (\<^verbatim>\<open>json.Unmarshal\<close>)\<close>

text \<open>A JSON value stored into a string field: \<^verbatim>\<open>null\<close> leaves the field as it is.\<close>

definition store_string :: "json \<Rightarrow> string \<Rightarrow> error + string" where
  "store_string v cur =
     (case v of
        JNull \<Rightarrow> Inr cur
      | JString r \<Rightarrow> (case unquote r of None \<Rightarrow> Inl UnmarshalError | Some x \<Rightarrow> Inr x)
      | _ \<Rightarrow> Inl UnmarshalError)"

text \<open>A JSON value stored into a timestamp, through \<^verbatim>\<open>Time.UnmarshalJSON\<close>.\<close>

definition store_time :: "json \<Rightarrow> time \<Rightarrow> error + time" where
  "store_time v cur =
     (case v of
        JNull \<Rightarrow> Inr cur
      | JString r \<Rightarrow> Time_UnmarshalJSON r
      | _ \<Rightarrow> Inl UnmarshalError)"

text \<open>
  One member of a link object. The field is found by its JSON name, exactly or under
  case folding; a member that names no field is skipped.
\<close>

definition set_field :: "link \<Rightarrow> string \<Rightarrow> json \<Rightarrow> error + link" where
  "set_field l name v =
     (let n = foldName name in
      if n = ''ALIAS'' then map_sum id (\<lambda>x. l\<lparr>Alias := x\<rparr>) (store_string v (Alias l))
      else if n = ''URL'' then map_sum id (\<lambda>x. l\<lparr>URL := x\<rparr>) (store_string v (URL l))
      else if n = ''DESCRIPTION'' then
        map_sum id (\<lambda>x. l\<lparr>Description := x\<rparr>) (store_string v (Description l))
      else if n = ''CATEGORY'' then
        map_sum id (\<lambda>x. l\<lparr>Category := x\<rparr>) (store_string v (Category l))
      else if n = ''CREATED_AT'' then
        map_sum id (\<lambda>x. l\<lparr>CreatedAt := x\<rparr>) (store_time v (CreatedAt l))
      else if n = ''UPDATED_AT'' then
        map_sum id (\<lambda>x. l\<lparr>UpdatedAt := x\<rparr>) (store_time v (UpdatedAt l))
      else Inr l)"

fun decode_fields :: "link \<Rightarrow> (string \<times> json) list \<Rightarrow> error + link" where
  "decode_fields l [] = Inr l"
| "decode_fields l ((k, v) # ms) =
     (case unquote k of
        None \<Rightarrow> Inl UnmarshalError
      | Some name \<Rightarrow>
          (case set_field l name v of
             Inl e \<Rightarrow> Inl e
           | Inr l' \<Rightarrow> decode_fields l' ms))"

text \<open>
  A value of the map: \<^verbatim>\<open>null\<close> is the nil pointer, an object is a new record filled
  from its members, anything else is a type error.
\<close>

definition decode_elem :: "json \<Rightarrow> error + link option" where
  "decode_elem v =
     (case v of
        JNull \<Rightarrow> Inr None
      | JObject ms \<Rightarrow> map_sum id Some (decode_fields zero_link ms)
      | _ \<Rightarrow> Inl UnmarshalError)"

text \<open>The members of the top-level object, in order: a repeated key replaces its entry.\<close>

fun decode_members ::
  "(string, link option) fmap \<Rightarrow> (string \<times> json) list \<Rightarrow> error + (string, link option) fmap"
where
  "decode_members f [] = Inr f"
| "decode_members f ((k, v) # ms) =
     (case unquote k of
        None \<Rightarrow> Inl UnmarshalError
      | Some key \<Rightarrow>
          (case decode_elem v of
             Inl e \<Rightarrow> Inl e
           | Inr p \<Rightarrow> decode_members (fmupd key p f) ms))"

text \<open>
  \<^verbatim>\<open>json.Unmarshal(data, &tempLinks)\<close> with \<^verbatim>\<open>tempLinks\<close> a fresh empty map; the
  result is the value of \<^verbatim>\<open>tempLinks\<close> afterwards. A top-level \<^verbatim>\<open>null\<close> sets the
  map to nil.
\<close>

definition json_Unmarshal :: "string \<Rightarrow> error + gomap" where
  "json_Unmarshal data =
     (case tokenize data of
        None \<Rightarrow> Inl SyntaxError
      | Some ts \<Rightarrow>
          (case parse_value [] ts of
             None \<Rightarrow> Inl SyntaxError
           | Some v \<Rightarrow>
               (case v of
                  JNull \<Rightarrow> Inr NilMap
                | JObject ms \<Rightarrow> map_sum id GoMap (decode_members fmempty ms)
                | _ \<Rightarrow> Inl UnmarshalError)))"

section \<open>Encoding the map (\<^verbatim>\<open>json.MarshalIndent(s.links, "", "  ")\<close>)\<close>

definition indent :: "nat \<Rightarrow> string" where
  "indent n = replicate (2 * n) (CHR '' '')"

text \<open>The lines of an object body, separated by a comma and a newline.\<close>

fun join :: "string list \<Rightarrow> string" where
  "join [] = []"
| "join [x] = x"
| "join (x # y # xs) = x @ '','' @ [nl] @ join (y # xs)"

definition member_line :: "nat \<Rightarrow> string \<Rightarrow> string \<Rightarrow> string" where
  "member_line n key val = indent n @ key @ '': '' @ val"

text \<open>
  The members of a link in the order of the struct; \<^verbatim>\<open>description\<close> and
  \<^verbatim>\<open>category\<close> carry \<^verbatim>\<open>omitempty\<close>.
\<close>

definition link_members :: "link \<Rightarrow> string \<Rightarrow> string \<Rightarrow> (string \<times> string) list" where
  "link_members l created updated =
     [(''alias'', appendString (Alias l)), (''url'', appendString (URL l))] @
     (if Description l = [] then [] else [(''description'', appendString (Description l))]) @
     (if Category l = [] then [] else [(''category'', appendString (Category l))]) @
     [(''created_at'', created), (''updated_at'', updated)]"

definition marshal_link :: "link \<Rightarrow> error + string" where
  "marshal_link l =
     (case Time_MarshalJSON (CreatedAt l) of
        Inl e \<Rightarrow> Inl e
      | Inr c \<Rightarrow>
          (case Time_MarshalJSON (UpdatedAt l) of
             Inl e \<Rightarrow> Inl e
           | Inr u \<Rightarrow>
               Inr (''{'' @ [nl] @
                    join (map (\<lambda>(n, x). member_line 2 ([dq] @ n @ [dq]) x) (link_members l c u)) @
                    [nl] @ indent 1 @ ''}'')))"

definition marshal_elem :: "link option \<Rightarrow> error + string" where
  "marshal_elem p = (case p of None \<Rightarrow> Inr ''null'' | Some l \<Rightarrow> marshal_link l)"

fun marshal_entries :: "(string, link option) fmap \<Rightarrow> string list \<Rightarrow> error + string list" where
  "marshal_entries f [] = Inr []"
| "marshal_entries f (k # ks) =
     (case fmlookup f k of
        None \<Rightarrow> marshal_entries f ks
      | Some p \<Rightarrow>
          (case marshal_elem p of
             Inl e \<Rightarrow> Inl e
           | Inr x \<Rightarrow>
               (case marshal_entries f ks of
                  Inl e \<Rightarrow> Inl e
                | Inr xs \<Rightarrow> Inr (member_line 1 (appendString k) x # xs))))"

text \<open>
  The keys are written in increasing byte order. The nil map is \<^verbatim>\<open>null\<close>, the empty
  map is \<^verbatim>\<open>{}\<close>.
\<close>

definition json_MarshalIndent :: "gomap \<Rightarrow> error + string" where
  "json_MarshalIndent m =
     (case m of
        NilMap \<Rightarrow> Inr ''null''
      | GoMap f \<Rightarrow>
          (let ks = sorted_list_of_fset (fmdom f) in
           if ks = [] then Inr ''{}''
           else
             (case marshal_entries f ks of
                Inl e \<Rightarrow> Inl e
              | Inr es \<Rightarrow> Inr (''{'' @ [nl] @ join es @ [nl] @ ''}''))))"

section \<open>The file system (\<^verbatim>\<open>os.ReadFile\<close>, \<^verbatim>\<open>os.WriteFile\<close>)\<close>

text \<open>
  The files by path, and the paths that cannot be opened for writing. Reading a path
  that has no file fails; writing to a path that cannot be opened fails and leaves the
  file as it is; any other write replaces the content.
\<close>

record filesystem =
  files :: "string \<rightharpoonup> string"
  write_denied :: "string \<Rightarrow> bool"

definition os_ReadFile :: "filesystem \<Rightarrow> string \<Rightarrow> error + string" where
  "os_ReadFile fs name = (case files fs name of None \<Rightarrow> Inl PathError | Some data \<Rightarrow> Inr data)"

definition os_WriteFile :: "filesystem \<Rightarrow> string \<Rightarrow> string \<Rightarrow> error option \<times> filesystem" where
  "os_WriteFile fs name data =
     (if write_denied fs name then (Some PathError, fs)
      else (None, fs\<lparr>files := (files fs)(name \<mapsto> data)\<rparr>))"

section \<open>The store (\<^verbatim>\<open>internal/storage/json_storage.go\<close>)\<close>

text \<open>
  Every method runs under the store's lock from its first to its last statement, so a
  method is one step on the pair of the store and the file system. A method returns its
  Go result together with the store and the file system it leaves behind. A link argument
  is a non-nil pointer.
\<close>

record JSONStorage =
  filePath :: string
  links :: gomap

definition saveWithoutLock :: "JSONStorage \<Rightarrow> filesystem \<Rightarrow> error option \<times> filesystem" where
  "saveWithoutLock s fs =
     (case json_MarshalIndent (links s) of
        Inl err \<Rightarrow> (Some err, fs)
      | Inr data \<Rightarrow> os_WriteFile fs (filePath s) data)"

definition Save :: "JSONStorage \<Rightarrow> filesystem \<Rightarrow> error option \<times> JSONStorage \<times> filesystem" where
  "Save s fs = (let (err, fs') = saveWithoutLock s fs in (err, s, fs'))"

definition load :: "JSONStorage \<Rightarrow> filesystem \<Rightarrow> error option \<times> JSONStorage" where
  "load s fs =
     (case os_ReadFile fs (filePath s) of
        Inl err \<Rightarrow> (Some err, s)
      | Inr data \<Rightarrow>
          if length data = 0 then (None, s\<lparr>links := GoMap fmempty\<rparr>)
          else
            (case json_Unmarshal data of
               Inl err \<Rightarrow> (Some err, s)
             | Inr tempLinks \<Rightarrow> (None, s\<lparr>links := tempLinks\<rparr>)))"

definition Create ::
  "JSONStorage \<Rightarrow> link \<Rightarrow> filesystem \<Rightarrow> error option \<times> JSONStorage \<times> filesystem" where
  "Create s l fs =
     (case map_lookup (links s) (Alias l) of
        Some _ \<Rightarrow> (Some AlreadyExists, s, fs)
      | None \<Rightarrow>
          (case map_assign (links s) (Alias l) (Some l) of
             None \<Rightarrow> (Some NilMapPanic, s, fs)
           | Some m \<Rightarrow>
               (let s' = s\<lparr>links := m\<rparr>; (err, fs') = saveWithoutLock s' fs
                in (err, s', fs'))))"

definition Get ::
  "JSONStorage \<Rightarrow> string \<Rightarrow> filesystem \<Rightarrow> (error + link option) \<times> JSONStorage \<times> filesystem"
where
  "Get s alias fs =
     (case map_lookup (links s) alias of
        None \<Rightarrow> (Inl NotFound, s, fs)
      | Some l \<Rightarrow> (Inr l, s, fs))"

text \<open>
  \<^verbatim>\<open>List\<close> appends the values in the order in which \<^verbatim>\<open>range\<close> visits the map, which
  the language leaves open: \<open>ks\<close> is that order, and \<open>range_order m ks\<close> says that
  \<open>ks\<close> visits every key of \<open>m\<close> once.
\<close>

definition range_order :: "gomap \<Rightarrow> string list \<Rightarrow> bool" where
  "range_order m ks \<longleftrightarrow> distinct ks \<and> fset_of_list ks = fmdom (entries m)"

definition List ::
  "JSONStorage \<Rightarrow> string list \<Rightarrow> filesystem \<Rightarrow> link option list \<times> JSONStorage \<times> filesystem"
where
  "List s ks fs = (List.map_filter (map_lookup (links s)) ks, s, fs)"

definition Update ::
  "JSONStorage \<Rightarrow> link \<Rightarrow> filesystem \<Rightarrow> error option \<times> JSONStorage \<times> filesystem" where
  "Update s l fs =
     (case map_lookup (links s) (Alias l) of
        None \<Rightarrow> (Some NotFound, s, fs)
      | Some _ \<Rightarrow>
          (case map_assign (links s) (Alias l) (Some l) of
             None \<Rightarrow> (Some NilMapPanic, s, fs)
           | Some m \<Rightarrow>
               (let s' = s\<lparr>links := m\<rparr>; (err, fs') = saveWithoutLock s' fs
                in (err, s', fs'))))"

definition Delete ::
  "JSONStorage \<Rightarrow> string \<Rightarrow> filesystem \<Rightarrow> error option \<times> JSONStorage \<times> filesystem" where
  "Delete s alias fs =
     (case map_lookup (links s) alias of
        None \<Rightarrow> (Some NotFound, s, fs)
      | Some _ \<Rightarrow>
          (let s' = s\<lparr>links := map_delete (links s) alias\<rparr>; (err, fs') = saveWithoutLock s' fs
           in (err, s', fs')))"

text \<open>
  \<^verbatim>\<open>NewJSONStorage\<close> on a path that is already absolute and whose directory exists:
  the store starts with an empty map and loads the file when there is one. Resolving the
  path, creating the directory and starting the watcher are outside the model.
\<close>

definition NewJSONStorage :: "string \<Rightarrow> filesystem \<Rightarrow> error + JSONStorage" where
  "NewJSONStorage absPath fs =
     (let storage = \<lparr>filePath = absPath, links = GoMap fmempty\<rparr> in
      if files fs absPath \<noteq> None then
        (case load storage fs of
           (Some err, _) \<Rightarrow> Inl err
         | (None, s) \<Rightarrow> Inr s)
      else Inr storage)"

section \<open>Round trip of strings\<close>

text \<open>
  A byte that the scanner copies inside a string: not a quote, not a backslash, not a
  control character.
\<close>

definition plain :: "char \<Rightarrow> bool" where
  "plain c \<longleftrightarrow> c \<noteq> dq \<and> c \<noteq> bs \<and> 0x20 \<le> (of_char c :: nat)"

lemma scan_string_plain:
  "list_all plain xs \<Longrightarrow>
   scan_string (xs @ t) = map_option (\<lambda>(r, t'). (xs @ r, t')) (scan_string t)"
proof (induction xs)
  case Nil
  show ?case by (simp add: option.map_ident split_def)
next
  case (Cons x xs)
  then show ?case
    by (cases "scan_string t") (auto simp: plain_def)
qed

lemma tail_ok_prefix:
  "tail_ok lo hi n r \<Longrightarrow> tail_ok lo hi n (take (Suc n) r @ y)"
  by (cases r) (auto simp: tail_ok_def)

lemma tail_ok_high:
  "tail_ok lo hi n r \<Longrightarrow> 0x80 \<le> lo \<Longrightarrow>
   Suc n \<le> length r \<and> list_all (\<lambda>c. 0x80 \<le> (of_char c :: nat)) (take (Suc n) r)"
  by (cases r) (auto simp: tail_ok_def between_def list_all_iff)

lemma tail_ok_prefix_numeral:
  "tail_ok lo hi 0 r \<Longrightarrow> tail_ok lo hi 0 (take (Suc 0) r @ y)"
  "tail_ok lo hi 1 r \<Longrightarrow> tail_ok lo hi 1 (take 2 r @ y)"
  "tail_ok lo hi (Suc 0) r \<Longrightarrow> tail_ok lo hi (Suc 0) (take 2 r @ y)"
  "tail_ok lo hi 2 r \<Longrightarrow> tail_ok lo hi 2 (take 3 r @ y)"
  using tail_ok_prefix[of lo hi 0 r y] tail_ok_prefix[of lo hi 1 r y]
    tail_ok_prefix[of lo hi 2 r y]
  by (simp_all add: numeral_2_eq_2 numeral_3_eq_3)

lemma tail_ok_high_numeral:
  assumes "0x80 \<le> lo"
  shows "tail_ok lo hi 0 r \<Longrightarrow> Suc 0 \<le> length r \<and> list_all (\<lambda>c. 0x80 \<le> (of_char c :: nat)) (take (Suc 0) r)"
    "tail_ok lo hi 1 r \<Longrightarrow> 2 \<le> length r \<and> list_all (\<lambda>c. 0x80 \<le> (of_char c :: nat)) (take 2 r)"
    "tail_ok lo hi (Suc 0) r \<Longrightarrow> 2 \<le> length r \<and> list_all (\<lambda>c. 0x80 \<le> (of_char c :: nat)) (take 2 r)"
    "tail_ok lo hi 2 r \<Longrightarrow> 3 \<le> length r \<and> list_all (\<lambda>c. 0x80 \<le> (of_char c :: nat)) (take 3 r)"
  using tail_ok_high[of lo hi 0 r] tail_ok_high[of lo hi 1 r] tail_ok_high[of lo hi 2 r] assms
  by (simp_all add: numeral_2_eq_2 numeral_3_eq_3)

lemma rune_width_prefix:
  assumes "rune_width (b # s) = w" and "0x80 \<le> (of_char b :: nat)" and "w \<noteq> 0"
  shows "rune_width (take w (b # s) @ y) = w"
  using assms
  by (auto simp: rune_width_def Let_def tail_ok_prefix_numeral split: if_splits)

lemma rune_width_high:
  assumes "rune_width (b # s) = w" and "0x80 \<le> (of_char b :: nat)" and "w \<noteq> 0"
  shows "w \<le> length (b # s) \<and> list_all (\<lambda>c. 0x80 \<le> (of_char c :: nat)) (take w (b # s))"
  using assms
  by (auto simp: rune_width_def Let_def split: if_splits
      dest: tail_ok_high_numeral[rotated])


lemma hex_props: "k < 16 \<Longrightarrow> isHex (hex k) \<and> hexval (hex k) = k"
proof -
  assume "k < 16"
  then have "k \<in> {0, 1, 2, 3, 4, 5, 6, 7, 8, 9, 10, 11, 12, 13, 14, 15}"
    by simp arith
  then show ?thesis
    by (elim insertE emptyE) (simp_all add: hex_def hexval_def isHex_def between_def)
qed

lemma escape_byte_scan:
  "scan_string (escape_byte b @ u) =
     map_option (\<lambda>(r, t). (escape_byte b @ r, t)) (scan_string u)"
proof -
  have h: "isHex (hex (of_char b div 16))" "isHex (hex (of_char b mod 16))"
    using hex_props[of "of_char b div 16 mod 16"] hex_props[of "of_char b mod 16"]
    by (simp_all add: hex_def)
  have z: "isHex (CHR ''0'')"
    by (simp add: isHex_def between_def)
  show ?thesis
    using h z
    by (cases "scan_string u")
      (auto simp: escape_byte_def simple_escape_def dq_def bs_def)
qed


lemma escape_byte_unquote:
  assumes "(of_char b :: nat) < 0x80"
  shows "unquote (escape_byte b @ u) = map_option ((#) b) (unquote u)"
proof -
  let ?n = "of_char b :: nat"
  have d: "?n div 16 < 16" using assms by simp
  have h: "isHex (hex (?n div 16))" "isHex (hex (?n mod 16))"
    "hexval (hex (?n div 16)) = ?n div 16" "hexval (hex (?n mod 16)) = ?n mod 16"
    using hex_props[OF d] hex_props[of "?n mod 16"] by simp_all
  have z: "isHex (CHR ''0'')" "hexval (CHR ''0'') = 0"
    by (simp_all add: isHex_def hexval_def between_def)
  have g: "getu4 (bs # CHR ''u'' # CHR ''0'' # CHR ''0'' # hex (?n div 16) # hex (?n mod 16) # u)
      = Some ?n"
    using h z by (simp add: getu4_def)
  have e: "EncodeRune ?n = [b]"
    using assms by (simp add: EncodeRune_def Let_def)
  show ?thesis
    using g e assms
    by (cases "unquote u") (auto simp: escape_byte_def dq_def bs_def)
qed


text \<open>
  What the round trip needs of an encoded string: the scanner reads it back as one
  string token, and decoding that token gives the string.
\<close>

definition P_escape :: "string \<Rightarrow> bool" where
  "P_escape s \<longleftrightarrow>
     (\<forall>t. scan_string (escape s @ dq # t) = Some (escape s, t)) \<and>
     unquote (escape s) = Some s"

lemma P_escape_Nil: "P_escape []"
  by (simp add: P_escape_def)

lemma P_escape_ascii:
  assumes "(of_char b :: nat) < 0x80" and "P_escape r"
  shows "P_escape (b # r)"
proof (cases "htmlSafe b")
  case True
  then show ?thesis
    using assms by (auto simp: P_escape_def htmlSafe_def)
next
  case False
  then show ?thesis
    using assms by (simp add: P_escape_def escape_byte_scan escape_byte_unquote)
qed

lemma separator_width:
  "rune_width (CHR 0xE2 # CHR 0x80 # CHR 0xA8 # r) = 3"
  "rune_width (CHR 0xE2 # CHR 0x80 # CHR 0xA9 # r) = 3"
  by (simp_all add: rune_width_def tail_ok_def between_def)

lemma P_escape_separator:
  assumes "take 3 (b # r) = line_separator \<or> take 3 (b # r) = paragraph_separator"
    and "P_escape (drop 2 r)"
  shows "P_escape (b # r)" and "rune_width (b # r) = 3"
proof -
  from assms(1) obtain c r' where br: "b # r = CHR 0xE2 # CHR 0x80 # c # r'"
    and c: "c = CHR 0xA8 \<or> c = CHR 0xA9"
    by (cases r; cases "tl r")
      (auto simp: line_separator_def paragraph_separator_def)
  from br have r: "drop 2 r = r'" by auto
  from c show "rune_width (b # r) = 3"
    unfolding br by (auto simp: separator_width)
  have g8: "\<And>u. getu4 (bs # CHR ''u'' # CHR ''2'' # CHR ''0'' # CHR ''2'' # CHR ''8'' # u) = Some 0x2028"
    by (simp add: getu4_def isHex_def hexval_def between_def)
  have g9: "\<And>u. getu4 (bs # CHR ''u'' # CHR ''2'' # CHR ''0'' # CHR ''2'' # CHR ''9'' # u) = Some 0x2029"
    by (simp add: getu4_def isHex_def hexval_def between_def)
  have e8: "EncodeRune 0x2028 = [CHR 0xE2, CHR 0x80, CHR 0xA8]"
    by (simp add: EncodeRune_def Let_def char_of_eq_iff take_bit_eq_mod)
  have e9: "EncodeRune 0x2029 = [CHR 0xE2, CHR 0x80, CHR 0xA9]"
    by (simp add: EncodeRune_def Let_def char_of_eq_iff take_bit_eq_mod)
  have hx: "isHex (CHR ''2'')" "isHex (CHR ''0'')" "isHex (CHR ''8'')" "isHex (CHR ''9'')"
    by (simp_all add: isHex_def between_def)
  from c show "P_escape (b # r)"
  proof
    assume "c = CHR 0xA8"
    then show ?thesis
      using assms(2) r g8 e8 hx unfolding br
      by (simp add: P_escape_def separator_width line_separator_def paragraph_separator_def
          simple_escape_def dq_def bs_def)
  next
    assume "c = CHR 0xA9"
    then show ?thesis
      using assms(2) r g9 e9 hx unfolding br
      by (simp add: P_escape_def separator_width line_separator_def paragraph_separator_def
          simple_escape_def dq_def bs_def)
  qed
qed


lemma high_plain: "0x80 \<le> (of_char c :: nat) \<Longrightarrow> plain c"
  by (auto simp: plain_def dq_def bs_def)

lemma P_escape_multi:
  assumes hi: "0x80 \<le> (of_char b :: nat)"
    and w: "rune_width (b # r) = w" and w0: "w \<noteq> 0"
    and ns: "take 3 (b # r) \<noteq> line_separator" "take 3 (b # r) \<noteq> paragraph_separator"
    and ih: "P_escape (drop (w - 1) r)"
  shows "P_escape (b # r)"
proof -
  let ?E = "escape (drop (w - 1) r)"
  have e: "escape (b # r) = take w (b # r) @ ?E"
    using hi w w0 ns by (simp add: Let_def)
  have len: "w \<le> length (b # r)"
    and high: "list_all (\<lambda>c. 0x80 \<le> (of_char c :: nat)) (take w (b # r))"
    using rune_width_high[OF w hi w0] by simp_all
  have pl: "list_all plain (take w (b # r))"
    using high by (auto simp: list_all_iff high_plain)
  have tk: "take w (b # r) = b # take (w - 1) r"
    using w0 by (cases w) simp_all
  have l1: "length (take (w - 1) r) = w - 1"
    using len w0 by (cases w) simp_all
  have scan: "scan_string (escape (b # r) @ dq # t) = Some (escape (b # r), t)" for t
  proof -
    have "scan_string ((take w (b # r) @ ?E) @ dq # t) =
        map_option (\<lambda>(x, t'). (take w (b # r) @ x, t')) (scan_string (?E @ dq # t))"
      using scan_string_plain[OF pl, of "?E @ dq # t"] by simp
    then show ?thesis
      unfolding e using ih by (simp add: P_escape_def del: escape.simps)
  qed
  have rw: "rune_width (b # take (w - 1) r @ ?E) = w"
    using rune_width_prefix[OF w hi w0, of ?E] tk by simp
  have nb: "b \<noteq> bs" "b \<noteq> dq" "\<not> (of_char b :: nat) < 0x20" "\<not> (of_char b :: nat) < 0x80"
    using hi by (auto simp: dq_def bs_def)
  have "unquote (b # take (w - 1) r @ ?E) =
      map_option ((@) (take w (b # take (w - 1) r @ ?E)))
        (unquote (drop (w - 1) (take (w - 1) r @ ?E)))"
    using nb rw w0 by (simp add: Let_def del: escape.simps)
  also have "take w (b # take (w - 1) r @ ?E) = b # take (w - 1) r"
    using l1 w0 by (cases w) simp_all
  also have "drop (w - 1) (take (w - 1) r @ ?E) = ?E"
    using l1 by simp
  also have "unquote ?E = Some (drop (w - 1) r)"
    using ih by (simp add: P_escape_def)
  finally have "unquote (take w (b # r) @ ?E) = Some (b # r)"
    by (simp add: tk del: escape.simps)
  then have "unquote (escape (b # r)) = Some (b # r)"
    unfolding e .
  with scan show ?thesis
    unfolding P_escape_def by blast
qed

lemma escape_roundtrip: "utf8_valid s \<Longrightarrow> P_escape s"
proof (induction s rule: utf8_valid.induct)
  case 1
  show ?case by (rule P_escape_Nil)
next
  case (2 b s)
  define w where "w = rune_width (b # s)"
  from "2.prems" have w0: "w \<noteq> 0" and v: "utf8_valid (drop (w - 1) s)"
    by (simp_all add: w_def Let_def)
  have ih: "P_escape (drop (w - 1) s)"
    using "2.IH"[OF w_def v] .
  show ?case
  proof (cases "(of_char b :: nat) < 0x80")
    case True
    then have "w = 1" by (simp add: w_def rune_width_def)
    with ih True show ?thesis by (simp add: P_escape_ascii)
  next
    case False
    then have hi: "0x80 \<le> (of_char b :: nat)" by simp
    show ?thesis
    proof (cases "take 3 (b # s) = line_separator \<or> take 3 (b # s) = paragraph_separator")
      case True
      then obtain c r' where br: "b # s = CHR 0xE2 # CHR 0x80 # c # r'"
        and c: "c = CHR 0xA8 \<or> c = CHR 0xA9"
        by (cases s; cases "tl s")
          (auto simp: line_separator_def paragraph_separator_def)
      then have "w = 3"
        unfolding w_def br by (auto simp: separator_width)
      with ih have "P_escape (drop 2 s)" by simp
      with True show ?thesis by (rule P_escape_separator(1))
    next
      case False
      then show ?thesis
        using P_escape_multi[OF hi w_def[symmetric] w0 _ _ ih] by simp
    qed
  qed
qed

section \<open>Round trip of timestamps\<close>

lemma of_char_digit: "(of_char (digit n) :: nat) = 48 + n mod 10"
proof -
  have "(48 + n mod 10) mod 256 = 48 + n mod 10"
    by (rule mod_less) (simp add: less_le_trans[OF add_strict_left_mono[OF mod_less_divisor]])
  then show ?thesis by (simp add: digit_def)
qed

lemma isDigit_digit: "isDigit (digit n)"
  by (simp add: isDigit_def between_def of_char_digit)

lemma atoi_Nil: "atoi [] = 0"
  by (simp add: atoi_def)

lemma atoi_snoc: "atoi (xs @ [c]) = atoi xs * 10 + (of_char c - 48)"
  by (simp add: atoi_def)

lemma atoi_append: "atoi (xs @ ys) = atoi xs * 10 ^ length ys + atoi ys"
proof (induction ys rule: rev_induct)
  case Nil
  show ?case by (simp add: atoi_Nil)
next
  case (snoc y ys)
  have "atoi (xs @ ys @ [y]) = atoi ((xs @ ys) @ [y])" by simp
  also have "\<dots> = atoi (xs @ ys) * 10 + (of_char y - 48)" by (rule atoi_snoc)
  finally show ?case
    using snoc by (simp add: atoi_snoc algebra_simps)
qed

lemma atoi_zeros: "atoi (replicate k (CHR ''0'')) = 0"
proof (induction k)
  case 0
  show ?case by (simp add: atoi_Nil)
next
  case (Suc k)
  have "replicate (Suc k) (CHR ''0'') = replicate k (CHR ''0'') @ [CHR ''0'']"
    by (simp add: replicate_append_same)
  then show ?case
    using Suc by (simp only: atoi_snoc) simp
qed

lemma atoi_dec: "atoi (dec n) = n"
proof (induction n rule: dec.induct)
  case (1 n)
  show ?case
  proof (cases "n < 10")
    case True
    then show ?thesis
      using atoi_snoc[of "[]" "digit n"]
      by (subst dec.simps) (simp add: atoi_Nil of_char_digit)
  next
    case False
    then show ?thesis
      using "1.IH"
      by (subst dec.simps) (simp add: atoi_snoc of_char_digit)
  qed
qed

lemma digits_dec: "list_all isDigit (dec n)"
proof (induction n rule: dec.induct)
  case (1 n)
  then show ?case
    by (subst dec.simps) (simp add: isDigit_digit)
qed

lemma length_dec: "n < 10 ^ w \<Longrightarrow> 0 < w \<Longrightarrow> length (dec n) \<le> w"
proof (induction n arbitrary: w rule: dec.induct)
  case (1 n)
  show ?case
  proof (cases "n < 10")
    case True
    then show ?thesis
      using "1.prems" by (subst dec.simps) simp
  next
    case False
    then obtain v where w: "w = Suc v"
      using "1.prems" by (cases w) auto
    have v0: "0 < v"
      using False "1.prems" w by (cases v) auto
    have "n div 10 < 10 ^ v"
      using "1.prems" w by (simp add: less_mult_imp_div_less mult.commute)
    then have "length (dec (n div 10)) \<le> v"
      using "1.IH"[OF False _ v0] by simp
    then show ?thesis
      using False w by (subst dec.simps) simp
  qed
qed

lemma appendInt_props:
  assumes "n < 10 ^ w" and "0 < w"
  shows "length (appendInt (int n) w) = w"
    and "list_all isDigit (appendInt (int n) w)"
    and "atoi (appendInt (int n) w) = n"
proof -
  have a: "appendInt (int n) w = replicate (w - length (dec n)) (CHR ''0'') @ dec n"
    by (simp add: appendInt_def Let_def)
  show "length (appendInt (int n) w) = w"
    using length_dec[OF assms] by (simp add: a)
  have "isDigit (CHR ''0'')"
    by (simp add: isDigit_def between_def)
  then show "list_all isDigit (appendInt (int n) w)"
    using digits_dec[of n] by (auto simp: a list_all_iff)
  show "atoi (appendInt (int n) w) = n"
    by (simp add: a atoi_append atoi_zeros atoi_dec)
qed

lemma parseUint_appendInt:
  assumes "n < 10 ^ w" and "0 < w" and "lo \<le> n" and "n \<le> hi"
  shows "parseUint (appendInt (int n) w) lo hi = Some n"
  using appendInt_props[OF assms(1,2)] assms(3,4) by (simp add: parseUint_def)

lemma length2E: "length xs = 2 \<Longrightarrow> \<exists>a b. xs = [a, b]"
  by (cases xs; cases "tl xs") auto

lemma length4E: "length xs = 4 \<Longrightarrow> \<exists>a b c d. xs = [a, b, c, d]"
  by (cases xs; cases "tl xs"; cases "tl (tl xs)"; cases "tl (tl (tl xs))") auto


text \<open>
  The timestamps that \<^verbatim>\<open>Time.MarshalJSON\<close> writes and \<^verbatim>\<open>Time.UnmarshalJSON\<close> reads
  back as they were: a calendar reading (every \<^verbatim>\<open>time.Time\<close> has one) with a year from
  0 to 9999, in a zone whose offset is a whole number of minutes, less than a day.
\<close>

definition valid_time :: "time \<Rightarrow> bool" where
  "valid_time t \<longleftrightarrow>
     0 \<le> Year t \<and> Year t \<le> 9999 \<and>
     1 \<le> Month t \<and> Month t \<le> 12 \<and>
     1 \<le> Day t \<and> Day t \<le> daysIn (Month t) (Year t) \<and>
     Hour t < 24 \<and> Minute t < 60 \<and> Second t < 60 \<and> Nanosecond t < 1000000000 \<and>
     ZoneOffset t mod 60 = 0 \<and> \<bar>ZoneOffset t\<bar> < 86400"

lemma isDigit_plain: "isDigit c \<Longrightarrow> plain c"
  by (auto simp: isDigit_def between_def plain_def dq_def bs_def)

lemma takeWhile_eq_replicate: "takeWhile (\<lambda>c. c = a) xs = replicate (length (takeWhile (\<lambda>c. c = a) xs)) a"
  by (induction xs) auto

lemma trimZeros_decomp: "\<exists>k. ds = trimZeros ds @ replicate k (CHR ''0'')"
proof -
  let ?P = "\<lambda>c. c = CHR ''0''"
  let ?k = "length (takeWhile ?P (rev ds))"
  have "rev ds = takeWhile ?P (rev ds) @ dropWhile ?P (rev ds)"
    by simp
  then have "rev (rev ds) = rev (takeWhile ?P (rev ds) @ dropWhile ?P (rev ds))"
    by simp
  then have "ds = rev (dropWhile ?P (rev ds)) @ rev (takeWhile ?P (rev ds))"
    by (simp only: rev_rev_ident rev_append)
  also have "rev (takeWhile ?P (rev ds)) = rev (replicate ?k (CHR ''0''))"
    using takeWhile_eq_replicate[of "CHR ''0''" "rev ds"] by simp
  finally have "ds = trimZeros ds @ replicate ?k (CHR ''0'')"
    by (simp add: trimZeros_def)
  then show ?thesis ..
qed

lemma trimZeros_dot: "trimZeros (CHR ''.'' # ds) = CHR ''.'' # trimZeros ds"
  by (simp add: trimZeros_def dropWhile_append)

lemma trimZeros_digits: "list_all isDigit ds \<Longrightarrow> list_all isDigit (trimZeros ds)"
  by (auto simp: trimZeros_def list_all_iff dest: set_dropWhileD)

lemma length_trimZeros: "length (trimZeros ds) \<le> length ds"
  using length_dropWhile_le[of "\<lambda>c. c = CHR ''0''" "rev ds"] by (simp add: trimZeros_def)

lemma takeWhile_digits:
  assumes "list_all isDigit xs" and "z \<noteq> []" and "\<not> isDigit (hd z)"
  shows "takeWhile isDigit (xs @ z) = xs" and "dropWhile isDigit (xs @ z) = z"
proof -
  from assms(2) obtain c z' where z: "z = c # z'" by (cases z) auto
  with assms(3) have c: "\<not> isDigit c" by simp
  show "takeWhile isDigit (xs @ z) = xs"
    using assms(1) c z by (simp add: takeWhile_append list_all_iff)
  show "dropWhile isDigit (xs @ z) = z"
    using assms(1) c z by (simp add: dropWhile_append list_all_iff)
qed

lemma parseFraction_appendNano:
  assumes n: "n < 1000000000" and z: "z \<noteq> []" "\<not> isDigit (hd z)" "hd z \<noteq> CHR ''.''"
  shows "parseFraction (appendNano n @ z) = (n, z)"
proof (cases "n = 0")
  case True
  from z obtain c z' where "z = c # z'" "c \<noteq> CHR ''.''" by (cases z) auto
  with True show ?thesis
    by (simp add: appendNano_def parseFraction_def)
next
  case False
  let ?ds = "appendInt (int n) 9"
  let ?td = "trimZeros ?ds"
  have p: "length ?ds = 9" "list_all isDigit ?ds" "atoi ?ds = n"
    using appendInt_props[of n 9] n by simp_all
  obtain k where k: "?ds = ?td @ replicate k (CHR ''0'')"
    using trimZeros_decomp by blast
  have lk: "length ?td + k = 9"
    using p(1) arg_cong[OF k, of length] by simp
  have at: "atoi ?td * 10 ^ k = n"
    using p(3) arg_cong[OF k, of atoi] by (simp add: atoi_append atoi_zeros)
  have td_ne: "?td \<noteq> []"
    using at False by (auto simp: atoi_Nil)
  have td_dig: "list_all isDigit ?td"
    using p(2) by (rule trimZeros_digits)
  obtain d td' where td: "?td = d # td'" using td_ne by (cases ?td) auto
  have d: "isDigit d" using td_dig td by simp
  have nano: "appendNano n = CHR ''.'' # ?td"
    using False by (simp add: appendNano_def trimZeros_dot)
  have tw: "takeWhile isDigit (?td @ z) = ?td" "dropWhile isDigit (?td @ z) = z"
    using takeWhile_digits[OF td_dig z(1,2)] by simp_all
  have k9: "k = 9 - length ?td" and l9: "length ?td \<le> 9"
    using lk by simp_all
  have "parseNanoseconds ?td = n"
    using at l9 unfolding k9 by (simp add: parseNanoseconds_def)
  then show ?thesis
    using tw d td by (simp add: nano parseFraction_def)
qed

lemma atoi_two: "atoi [a, b] = 10 * (of_char a - 48) + (of_char b - 48)"
  by (simp add: atoi_def)

lemma appendZone_zero: "appendZone 0 = ''Z''"
  by (simp add: appendZone_def)

lemma appendZone_nonzero:
  assumes m: "off mod 60 = 0" and r: "\<bar>off\<bar> < 86400" and nz: "off \<noteq> 0"
  shows "\<exists>sg a b c d. appendZone off = [sg, a, b, CHR '':'', c, d] \<and>
           (sg = CHR ''-'' \<or> sg = CHR ''+'') \<and> isDigit d \<and>
           isDigit a \<and> isDigit b \<and> isDigit c \<and>
           num2 [a, b, CHR '':'', c, d] < 24 \<and>
           parseZone [sg, a, b, CHR '':'', c, d] = Some off"
proof -
  define Z where "Z = nat (\<bar>off\<bar> div 60)"
  have zabs: "int Z * 60 = \<bar>off\<bar>"
  proof -
    have "60 dvd off" using m by (simp add: dvd_eq_mod_eq_0)
    then have "60 dvd \<bar>off\<bar>" by simp
    then have "\<bar>off\<bar> div 60 * 60 = \<bar>off\<bar>" by (rule dvd_div_mult_self)
    moreover have "0 \<le> \<bar>off\<bar> div 60" by simp
    ultimately show ?thesis unfolding Z_def by simp
  qed
  have Zpos: "0 < Z" using zabs nz by (cases Z) auto
  have Zlt: "Z < 1440" using zabs r by simp
  have q: "quot off 60 = sgn off * int Z"
    by (simp add: quot_def Z_def)
  have neg: "quot off 60 < 0 \<longleftrightarrow> off < 0"
    using Zpos by (simp add: q sgn_if mult_less_0_iff)
  have az: "\<bar>quot off 60\<bar> = int Z"
    using nz by (simp add: q abs_mult)
  have qh: "quot (int Z) 60 = int (Z div 60)"
    using Zpos by (simp add: quot_def zdiv_int)
  have qm: "int Z mod 60 = int (Z mod 60)"
    by (simp add: zmod_int)
  let ?hh = "appendInt (int (Z div 60)) 2"
  let ?mm = "appendInt (int (Z mod 60)) 2"
  have hlt: "Z div 60 < 24" using Zlt by simp
  have hp: "length ?hh = 2" "list_all isDigit ?hh" "atoi ?hh = Z div 60"
    using appendInt_props[of "Z div 60" 2] hlt by simp_all
  have mp: "length ?mm = 2" "list_all isDigit ?mm" "atoi ?mm = Z mod 60"
    using appendInt_props[of "Z mod 60" 2] by simp_all
  obtain a b where ab: "?hh = [a, b]" using length2E[OF hp(1)] by blast
  obtain c d where cd: "?mm = [c, d]" using length2E[OF mp(1)] by blast
  define sg where "sg = (if off < 0 then CHR ''-'' else CHR ''+'')"
  have form: "appendZone off = [sg, a, b, CHR '':'', c, d]"
    using nz by (simp add: appendZone_def Let_def neg az qh qm ab cd sg_def)
  have dig: "isDigit a" "isDigit b" "isDigit c" "isDigit d"
    using hp(2) mp(2) by (simp_all add: ab cd)
  have n2: "num2 [a, b, CHR '':'', c, d] = Z div 60"
    using hp(3) by (simp add: num2_def ab atoi_two)
  have pu1: "parseUint [a, b] 0 23 = Some (Z div 60)"
    using hp hlt by (simp add: parseUint_def ab)
  have pu2: "parseUint [c, d] 0 59 = Some (Z mod 60)"
    using mp by (simp add: parseUint_def cd)
  have val: "(int (Z div 60) * 60 + int (Z mod 60)) * 60 = \<bar>off\<bar>"
  proof -
    have "int (Z div 60) * 60 + int (Z mod 60) = int Z"
      by (metis mult.commute of_nat_add of_nat_mult of_nat_numeral mult_div_mod_eq)
    then show ?thesis using zabs by simp
  qed
  have pz: "parseZone [sg, a, b, CHR '':'', c, d] = Some off"
    using val by (auto simp: parseZone_def pu1 pu2 sg_def)
  show ?thesis
    using form dig n2 hlt pz by (auto simp: sg_def)
qed



lemma appendZone_head:
  assumes "off mod 60 = 0" and "\<bar>off\<bar> < 86400"
  shows "appendZone off \<noteq> []" and "\<not> isDigit (hd (appendZone off))"
    and "hd (appendZone off) \<noteq> CHR ''.''" and "list_all plain (appendZone off)"
    and "parseZone (appendZone off) = Some off"
proof -
  have "appendZone off \<noteq> [] \<and> \<not> isDigit (hd (appendZone off)) \<and>
      hd (appendZone off) \<noteq> CHR ''.'' \<and> list_all plain (appendZone off) \<and>
      parseZone (appendZone off) = Some off"
  proof (cases "off = 0")
    case True
    then show ?thesis
      by (simp add: appendZone_zero isDigit_def between_def plain_def dq_def bs_def
          parseZone_def)
  next
    case False
    from appendZone_nonzero[OF assms False] obtain sg a b c d where
      f: "appendZone off = [sg, a, b, CHR '':'', c, d]" and
      sg: "sg = CHR ''-'' \<or> sg = CHR ''+''" and
      dg: "isDigit a" "isDigit b" "isDigit c" "isDigit d" and
      pz: "parseZone [sg, a, b, CHR '':'', c, d] = Some off"
      by blast
    have "\<not> isDigit sg" "sg \<noteq> CHR ''.''" "plain sg"
      using sg by (auto simp: isDigit_def between_def plain_def dq_def bs_def)
    moreover have "plain (CHR '':'')"
      by (simp add: plain_def dq_def bs_def)
    ultimately show ?thesis
      using dg pz by (simp add: f isDigit_plain)
  qed
  then show "appendZone off \<noteq> []" and "\<not> isDigit (hd (appendZone off))"
    and "hd (appendZone off) \<noteq> CHR ''.''" and "list_all plain (appendZone off)"
    and "parseZone (appendZone off) = Some off"
    by simp_all
qed

lemma strict_zone_check:
  assumes "off mod 60 = 0" and "\<bar>off\<bar> < 86400"
  shows "\<not> (last (P @ appendZone off) \<noteq> CHR ''Z'' \<and>
            (isDigit ((P @ appendZone off) ! (length (P @ appendZone off) - 6)) \<or>
             24 \<le> num2 (drop (length (P @ appendZone off) - 5) (P @ appendZone off))))"
proof (cases "off = 0")
  case True
  then show ?thesis by (simp add: appendZone_zero)
next
  case False
  from appendZone_nonzero[OF assms False] obtain sg a b c d where
    f: "appendZone off = [sg, a, b, CHR '':'', c, d]" and
    sg: "sg = CHR ''-'' \<or> sg = CHR ''+''" and
    n2: "num2 [a, b, CHR '':'', c, d] < 24"
    by blast
  have nd: "\<not> isDigit sg"
    using sg by (auto simp: isDigit_def between_def)
  have i: "(P @ appendZone off) ! (length (P @ appendZone off) - 6) = sg"
    by (simp add: f nth_append)
  have "length (P @ appendZone off) - 5 = length P + 1"
    by (simp add: f)
  then have d: "drop (length (P @ appendZone off) - 5) (P @ appendZone off) =
      [a, b, CHR '':'', c, d]"
    by (simp add: f)
  show ?thesis
    using nd n2 by (simp only: i d) simp
qed

lemma appendNano_plain: "n < 1000000000 \<Longrightarrow> list_all plain (appendNano n)"
proof -
  assume "n < 1000000000"
  then have "list_all isDigit (appendInt (int n) 9)"
    using appendInt_props(2)[of n 9] by simp
  then have "list_all isDigit (trimZeros (appendInt (int n) 9))"
    by (rule trimZeros_digits)
  then have "list_all plain (trimZeros (appendInt (int n) 9))"
    by (auto simp: list_all_iff isDigit_plain)
  moreover have "plain (CHR ''.'')"
    by (simp add: plain_def dq_def bs_def)
  ultimately show ?thesis
    by (simp add: appendNano_def trimZeros_dot)
qed

lemma time_roundtrip:
  assumes v: "valid_time t"
  shows "appendStrictRFC3339 t = Inr (appendFormatRFC3339 t)"
    and "parseRFC3339 (appendFormatRFC3339 t) = Some t"
    and "list_all plain (appendFormatRFC3339 t)"
proof -
  define Y where "Y = nat (Year t)"
  have y0: "0 \<le> Year t" "Year t \<le> 9999"
    using v by (simp_all add: valid_time_def)
  have yr: "Year t = int Y" "Y < 10 ^ 4" "Y \<le> 9999"
    using y0 by (auto simp: Y_def)
  have rng: "1 \<le> Month t" "Month t \<le> 12" "1 \<le> Day t" "Day t \<le> daysIn (Month t) (int Y)"
    "Hour t < 24" "Minute t < 60" "Second t < 60" "Nanosecond t < 1000000000"
    and zo: "ZoneOffset t mod 60 = 0" "\<bar>ZoneOffset t\<bar> < 86400"
    using v by (simp_all add: valid_time_def yr(1)[symmetric])
  have d31: "daysIn (Month t) (int Y) \<le> 31"
    by (simp add: daysIn_def)
  let ?y = "appendInt (int Y) 4"
  let ?mo = "appendInt (int (Month t)) 2"
  let ?d = "appendInt (int (Day t)) 2"
  let ?h = "appendInt (int (Hour t)) 2"
  let ?mi = "appendInt (int (Minute t)) 2"
  let ?se = "appendInt (int (Second t)) 2"
  let ?tail = "appendNano (Nanosecond t) @ appendZone (ZoneOffset t)"
  have py: "length ?y = 4" "list_all isDigit ?y" "parseUint ?y 0 9999 = Some Y"
    using appendInt_props[of Y 4] parseUint_appendInt[of Y 4 0 9999] yr by simp_all
  have pmo: "length ?mo = 2" "list_all isDigit ?mo" "parseUint ?mo 1 12 = Some (Month t)"
    using appendInt_props[of "Month t" 2] parseUint_appendInt[of "Month t" 2 1 12] rng
    by simp_all
  have pd: "length ?d = 2" "list_all isDigit ?d"
    "parseUint ?d 1 (daysIn (Month t) (int Y)) = Some (Day t)"
    using appendInt_props[of "Day t" 2]
      parseUint_appendInt[of "Day t" 2 1 "daysIn (Month t) (int Y)"] rng d31
    by simp_all
  have ph: "length ?h = 2" "list_all isDigit ?h" "parseUint ?h 0 23 = Some (Hour t)"
    using appendInt_props[of "Hour t" 2] parseUint_appendInt[of "Hour t" 2 0 23] rng
    by simp_all
  have pmi: "length ?mi = 2" "list_all isDigit ?mi" "parseUint ?mi 0 59 = Some (Minute t)"
    using appendInt_props[of "Minute t" 2] parseUint_appendInt[of "Minute t" 2 0 59] rng
    by simp_all
  have pse: "length ?se = 2" "list_all isDigit ?se" "parseUint ?se 0 59 = Some (Second t)"
    using appendInt_props[of "Second t" 2] parseUint_appendInt[of "Second t" 2 0 59] rng
    by simp_all
  obtain y1 y2 y3 y4 where ey: "?y = [y1, y2, y3, y4]" using length4E[OF py(1)] by blast
  obtain m1 m2 where emo: "?mo = [m1, m2]" using length2E[OF pmo(1)] by blast
  obtain d1 d2 where ed: "?d = [d1, d2]" using length2E[OF pd(1)] by blast
  obtain h1 h2 where eh: "?h = [h1, h2]" using length2E[OF ph(1)] by blast
  obtain i1 i2 where emi: "?mi = [i1, i2]" using length2E[OF pmi(1)] by blast
  obtain s1 s2 where ese: "?se = [s1, s2]" using length2E[OF pse(1)] by blast
  let ?pre = "[y1, y2, y3, y4, CHR ''-'', m1, m2, CHR ''-'', d1, d2, CHR ''T'', h1, h2,
    CHR '':'', i1, i2, CHR '':'', s1, s2]"
  have b: "appendFormatRFC3339 t = ?pre @ ?tail"
    by (simp add: appendFormatRFC3339_def yr(1) ey emo ed eh emi ese)
  have zh: "appendZone (ZoneOffset t) \<noteq> []" "\<not> isDigit (hd (appendZone (ZoneOffset t)))"
    "hd (appendZone (ZoneOffset t)) \<noteq> CHR ''.''" "list_all plain (appendZone (ZoneOffset t))"
    "parseZone (appendZone (ZoneOffset t)) = Some (ZoneOffset t)"
    using appendZone_head[OF zo] by simp_all
  have fr: "parseFraction ?tail = (Nanosecond t, appendZone (ZoneOffset t))"
    using parseFraction_appendNano[OF rng(8) zh(1,2,3)] .
  have rec: "\<lparr>Year = int Y, Month = Month t, Day = Day t, Hour = Hour t, Minute = Minute t,
      Second = Second t, Nanosecond = Nanosecond t, ZoneOffset = ZoneOffset t\<rparr> = t"
    using yr(1) by (cases t) simp
  show "parseRFC3339 (appendFormatRFC3339 t) = Some t"
    using py(3) pmo(3) pd(3) ph(3) pmi(3) pse(3) fr zh(5) rec
    by (simp add: parseRFC3339_def b ey emo ed eh emi ese)
  have "appendFormatRFC3339 t = (?pre @ appendNano (Nanosecond t)) @ appendZone (ZoneOffset t)"
    by (simp add: b)
  then have chk: "\<not> (last (appendFormatRFC3339 t) \<noteq> CHR ''Z'' \<and>
      (isDigit (appendFormatRFC3339 t ! (length (appendFormatRFC3339 t) - 6)) \<or>
       24 \<le> num2 (drop (length (appendFormatRFC3339 t) - 5) (appendFormatRFC3339 t))))"
    using strict_zone_check[OF zo, of "?pre @ appendNano (Nanosecond t)"] by simp
  have "appendFormatRFC3339 t ! 4 = CHR ''-''"
    by (simp add: b)
  then show "appendStrictRFC3339 t = Inr (appendFormatRFC3339 t)"
    using chk by (simp add: appendStrictRFC3339_def Let_def)
  have pp: "plain (CHR ''-'')" "plain (CHR ''T'')" "plain (CHR '':'')"
    by (simp_all add: plain_def dq_def bs_def)
  have "list_all plain ?pre"
    using py(2) pmo(2) pd(2) ph(2) pmi(2) pse(2)
    by (simp add: ey emo ed eh emi ese isDigit_plain pp)
  then show "list_all plain (appendFormatRFC3339 t)"
    using appendNano_plain[OF rng(8)] zh(4) by (simp add: b)
qed

section \<open>Round trip of documents\<close>

text \<open>
  The records and mappings that survive the round trip. A link is valid when its four strings are
  well-formed UTF-8 and its two timestamps are valid; a mapping is valid when every key
  is well-formed UTF-8 and every value is a nil pointer or a valid link.
\<close>

definition valid_link :: "link \<Rightarrow> bool" where
  "valid_link l \<longleftrightarrow>
     utf8_valid (Alias l) \<and> utf8_valid (URL l) \<and> utf8_valid (Description l) \<and>
     utf8_valid (Category l) \<and> valid_time (CreatedAt l) \<and> valid_time (UpdatedAt l)"

definition valid_links :: "gomap \<Rightarrow> bool" where
  "valid_links m =
     fmpred (\<lambda>k p. utf8_valid k \<and> (case p of None \<Rightarrow> True | Some l \<Rightarrow> valid_link l))
       (entries m)"

definition valid_elem :: "link option \<Rightarrow> bool" where
  "valid_elem p = (case p of None \<Rightarrow> True | Some l \<Rightarrow> valid_link l)"

text \<open>The part of validity that encoding needs: the timestamps of the link.\<close>

definition valid_stamps :: "link option \<Rightarrow> bool" where
  "valid_stamps p =
     (case p of None \<Rightarrow> True | Some l \<Rightarrow> valid_time (CreatedAt l) \<and> valid_time (UpdatedAt l))"

text \<open>A raw text that the scanner reads back as one string token when it is quoted.\<close>

definition scannable :: "string \<Rightarrow> bool" where
  "scannable r \<longleftrightarrow> (\<forall>t. scan_string (r @ dq # t) = Some (r, t))"

definition quote :: "string \<Rightarrow> string" where
  "quote r = [dq] @ r @ [dq]"

text \<open>
  The document of a link as \<open>marshal_link\<close> writes it, described by the raw texts of
  its members, with the tokens and the JSON value the parser makes of it.
\<close>

definition raw_members :: "link \<Rightarrow> (string \<times> string) list" where
  "raw_members l =
     [(''alias'', escape (Alias l)), (''url'', escape (URL l))] @
     (if Description l = [] then [] else [(''description'', escape (Description l))]) @
     (if Category l = [] then [] else [(''category'', escape (Category l))]) @
     [(''created_at'', appendFormatRFC3339 (CreatedAt l)),
      (''updated_at'', appendFormatRFC3339 (UpdatedAt l))]"

definition link_doc :: "link \<Rightarrow> string" where
  "link_doc l =
     ''{'' @ [nl] @
     join (map (\<lambda>(n, r). member_line 2 (quote n) (quote r)) (raw_members l)) @
     [nl] @ indent 1 @ ''}''"

definition elem_doc :: "link option \<Rightarrow> string" where
  "elem_doc p = (case p of None \<Rightarrow> ''null'' | Some l \<Rightarrow> link_doc l)"

definition more_tokens :: "(string \<times> string) list \<Rightarrow> token list" where
  "more_tokens ms = concat (map (\<lambda>(n, r). [Comma, TString n, Colon, TString r]) ms)"

definition link_json :: "link \<Rightarrow> json" where
  "link_json l = JObject (map (\<lambda>(n, r). (n, JString r)) (raw_members l))"

definition elem_json :: "link option \<Rightarrow> json" where
  "elem_json p = (case p of None \<Rightarrow> JNull | Some l \<Rightarrow> link_json l)"

definition link_tokens :: "link \<Rightarrow> token list" where
  "link_tokens l = LBrace # tl (more_tokens (raw_members l)) @ [RBrace]"

definition elem_tokens :: "link option \<Rightarrow> token list" where
  "elem_tokens p = (case p of None \<Rightarrow> [TNull] | Some l \<Rightarrow> link_tokens l)"

definition more_entries :: "(string \<times> link option) list \<Rightarrow> token list" where
  "more_entries es =
     concat (map (\<lambda>(k, p). Comma # TString (escape k) # Colon # elem_tokens p) es)"

lemma plain_scannable: "list_all plain r \<Longrightarrow> scannable r"
  by (simp add: scannable_def scan_string_plain)

lemma scannable_Nil: "scannable []"
  by (simp add: scannable_def)

lemma scannable_plain_append: "list_all plain xs \<Longrightarrow> scannable r \<Longrightarrow> scannable (xs @ r)"
  by (simp add: scannable_def scan_string_plain)

lemma scannable_escape_byte: "scannable r \<Longrightarrow> scannable (escape_byte b @ r)"
  by (simp add: scannable_def escape_byte_scan)

lemma scannable_u4:
  assumes "isHex a" and "isHex b" and "isHex c" and "isHex d" and "scannable r"
  shows "scannable ([bs, CHR ''u'', a, b, c, d] @ r)"
  using assms by (simp add: scannable_def simple_escape_def dq_def bs_def)

lemma escape_scannable: "scannable (escape s)"
proof (induction s rule: escape.induct)
  case 1
  show ?case by (simp add: scannable_Nil)
next
  case (2 b s)
  have hx: "isHex (CHR ''f'')" "isHex (CHR ''d'')" "isHex (CHR ''2'')" "isHex (CHR ''0'')"
    "isHex (CHR ''8'')" "isHex (CHR ''9'')"
    by (simp_all add: isHex_def between_def)
  show ?case
  proof (cases "(of_char b :: nat) < 0x80")
    case True
    show ?thesis
    proof (cases "htmlSafe b")
      case safe: True
      then have "plain b" by (simp add: htmlSafe_def plain_def)
      then show ?thesis
        using scannable_plain_append[of "[b]" "escape s"] "2.IH"(1)[OF True safe] True safe
        by simp
    next
      case False
      then show ?thesis
        using scannable_escape_byte[OF "2.IH"(2)[OF True False]] True by simp
    qed
  next
    case hi: False
    define w where "w = rune_width (b # s)"
    show ?thesis
    proof (cases "w = 0")
      case True
      then show ?thesis
        using scannable_u4[OF hx(1) hx(1) hx(1) hx(2) "2.IH"(3)[OF hi w_def True]] hi
        by (simp add: w_def[symmetric])
    next
      case w0: False
      show ?thesis
      proof (cases "take 3 (b # s) = line_separator")
        case True
        then show ?thesis
          using scannable_u4[OF hx(3) hx(4) hx(3) hx(5) "2.IH"(4)[OF hi w_def w0 True]] hi w0
          by (simp add: w_def[symmetric])
      next
        case nl: False
        show ?thesis
        proof (cases "take 3 (b # s) = paragraph_separator")
          case True
          then show ?thesis
            using scannable_u4[OF hx(3) hx(4) hx(3) hx(6) "2.IH"(5)[OF hi w_def w0 nl True]]
              hi w0 nl
            by (simp add: w_def[symmetric])
        next
          case False
          have "list_all (\<lambda>c. 0x80 \<le> (of_char c :: nat)) (take w (b # s))"
            using rune_width_high[OF w_def[symmetric] _ w0] hi by simp
          then have "list_all plain (take w (b # s))"
            by (auto simp: list_all_iff high_plain)
          then have "scannable (take w (b # s) @ escape (drop (w - 1) s))"
            using "2.IH"(6)[OF hi w_def w0 nl False] by (rule scannable_plain_append)
          then show ?thesis
            using hi w0 nl False by (simp add: w_def[symmetric] Let_def)
        qed
      qed
    qed
  qed
qed

lemma time_scannable: "valid_time t \<Longrightarrow> scannable (appendFormatRFC3339 t)"
  by (rule plain_scannable) (rule time_roundtrip(3))

lemma tokenize_space: "isSpace c \<Longrightarrow> tokenize (c # s) = tokenize s"
  by (simp add: tokenize.simps)

lemma tokenize_spaces: "list_all isSpace ws \<Longrightarrow> tokenize (ws @ s) = tokenize s"
  by (induction ws) (simp_all add: tokenize_space)

lemma tokenize_indent: "tokenize (indent n @ s) = tokenize s"
  by (rule tokenize_spaces) (simp add: indent_def isSpace_def list_all_iff)

lemma tokenize_nl: "tokenize (nl # s) = tokenize s"
  by (rule tokenize_space) (simp add: isSpace_def nl_def)

lemma tokenize_punct:
  assumes "tokenize s = Some ts"
  shows "tokenize (CHR ''{'' # s) = Some (LBrace # ts)"
    and "tokenize (CHR ''}'' # s) = Some (RBrace # ts)"
    and "tokenize (CHR '','' # s) = Some (Comma # ts)"
    and "tokenize (CHR '':'' # s) = Some (Colon # ts)"
  using assms by (simp_all add: tokenize.simps isSpace_def)

lemma tokenize_null:
  "tokenize s = Some ts \<Longrightarrow> tokenize (''null'' @ s) = Some (TNull # ts)"
  by (simp add: tokenize.simps isSpace_def dq_def isDigit_def between_def)

lemma tokenize_quote:
  "scannable r \<Longrightarrow> tokenize s = Some ts \<Longrightarrow> tokenize (quote r @ s) = Some (TString r # ts)"
  by (simp add: quote_def scannable_def tokenize.simps isSpace_def dq_def)

lemma tokenize_member_line:
  assumes "scannable n" and "scannable r" and "tokenize s = Some ts"
  shows "tokenize (member_line k (quote n) (quote r) @ s) =
     Some (TString n # Colon # TString r # ts)"
proof -
  have "tokenize (quote r @ s) = Some (TString r # ts)"
    by (rule tokenize_quote[OF assms(2,3)])
  then have "tokenize (CHR '' '' # quote r @ s) = Some (TString r # ts)"
    by (simp add: tokenize_space isSpace_def)
  then have "tokenize (CHR '':'' # CHR '' '' # quote r @ s) = Some (Colon # TString r # ts)"
    by (rule tokenize_punct(4))
  then have "tokenize (quote n @ CHR '':'' # CHR '' '' # quote r @ s) =
      Some (TString n # Colon # TString r # ts)"
    by (rule tokenize_quote[OF assms(1)])
  then show ?thesis
    by (simp add: member_line_def tokenize_indent)
qed

lemma more_tokens_Cons:
  "more_tokens ((n, r) # ms) = Comma # TString n # Colon # TString r # more_tokens ms"
  by (simp add: more_tokens_def)

lemma more_tokens_Nil: "more_tokens [] = []"
  by (simp add: more_tokens_def)

lemma tokenize_members:
  assumes "scannable n0" and "scannable r0"
    and "\<forall>x \<in> set ms. scannable (fst x) \<and> scannable (snd x)"
    and "tokenize s = Some ts"
  shows "tokenize (join (map (\<lambda>(n, r). member_line k (quote n) (quote r)) ((n0, r0) # ms)) @ s) =
     Some (TString n0 # Colon # TString r0 # more_tokens ms @ ts)"
  using assms(1,2,3)
proof (induction ms arbitrary: n0 r0)
  case Nil
  then show ?case
    using tokenize_member_line[OF Nil(1,2) assms(4)] by (simp add: more_tokens_Nil)
next
  case (Cons m ms)
  obtain n1 r1 where m: "m = (n1, r1)" by (cases m)
  let ?rest = "join (map (\<lambda>(n, r). member_line k (quote n) (quote r)) ((n1, r1) # ms)) @ s"
  have "tokenize ?rest = Some (TString n1 # Colon # TString r1 # more_tokens ms @ ts)"
    using Cons.IH[of n1 r1] Cons.prems m by simp
  then have "tokenize (nl # ?rest) = Some (TString n1 # Colon # TString r1 # more_tokens ms @ ts)"
    by (simp only: tokenize_nl)
  then have "tokenize (CHR '','' # nl # ?rest) =
      Some (Comma # TString n1 # Colon # TString r1 # more_tokens ms @ ts)"
    by (rule tokenize_punct(3))
  then have "tokenize (member_line k (quote n0) (quote r0) @ CHR '','' # nl # ?rest) =
      Some (TString n0 # Colon # TString r0 # Comma # TString n1 # Colon # TString r1 #
        more_tokens ms @ ts)"
    by (rule tokenize_member_line[OF Cons.prems(1,2)])
  then show ?case
    by (simp add: m more_tokens_Cons)
qed

lemma name_scannable:
  "scannable ''alias''" "scannable ''url''" "scannable ''description''"
  "scannable ''category''" "scannable ''created_at''" "scannable ''updated_at''"
  by (rule plain_scannable, simp add: plain_def dq_def bs_def)+

lemma raw_members_scannable:
  assumes "valid_stamps (Some l)"
  shows "\<forall>x \<in> set (raw_members l). scannable (fst x) \<and> scannable (snd x)"
  using assms
  by (auto simp: raw_members_def valid_stamps_def name_scannable escape_scannable time_scannable)

lemma raw_members_shape:
  "\<exists>ms. raw_members l = (''alias'', escape (Alias l)) # ms"
  by (simp add: raw_members_def)

lemma tokenize_link_doc:
  assumes "valid_stamps (Some l)" and "tokenize s = Some ts"
  shows "tokenize (link_doc l @ s) = Some (link_tokens l @ ts)"
proof -
  obtain ms where ms: "raw_members l = (''alias'', escape (Alias l)) # ms"
    using raw_members_shape by blast
  have sc: "scannable ''alias''" "scannable (escape (Alias l))"
    "\<forall>x \<in> set ms. scannable (fst x) \<and> scannable (snd x)"
    using raw_members_scannable[OF assms(1)] by (simp_all add: ms)
  let ?body = "join (map (\<lambda>(n, r). member_line 2 (quote n) (quote r))
           ((''alias'', escape (Alias l)) # ms))"
  have "tokenize (CHR ''}'' # s) = Some (RBrace # ts)"
    using assms(2) by (rule tokenize_punct(2))
  then have "tokenize (nl # indent 1 @ CHR ''}'' # s) = Some (RBrace # ts)"
    by (simp add: tokenize_nl tokenize_indent)
  then have "tokenize (?body @ nl # indent 1 @ CHR ''}'' # s) =
      Some (TString ''alias'' # Colon # TString (escape (Alias l)) # more_tokens ms @ RBrace # ts)"
    by (rule tokenize_members[OF sc])
  then have "tokenize (nl # ?body @ nl # indent 1 @ CHR ''}'' # s) =
      Some (TString ''alias'' # Colon # TString (escape (Alias l)) # more_tokens ms @ RBrace # ts)"
    by (simp only: tokenize_nl)
  then have "tokenize (CHR ''{'' # nl # ?body @ nl # indent 1 @ CHR ''}'' # s) =
      Some (LBrace # TString ''alias'' # Colon # TString (escape (Alias l)) #
        more_tokens ms @ RBrace # ts)"
    by (rule tokenize_punct(1))
  then show ?thesis
    by (simp add: link_doc_def link_tokens_def ms more_tokens_Cons del: join.simps)
qed

lemma tokenize_elem_doc:
  assumes "valid_stamps p" and "tokenize s = Some ts"
  shows "tokenize (elem_doc p @ s) = Some (elem_tokens p @ ts)"
proof (cases p)
  case None
  then show ?thesis
    using tokenize_null[OF assms(2)] by (simp add: elem_doc_def elem_tokens_def)
next
  case (Some l)
  then show ?thesis
    using assms tokenize_link_doc[of l s ts] by (simp add: elem_doc_def elem_tokens_def)
qed

lemma valid_elem_stamps: "valid_elem p \<Longrightarrow> valid_stamps p"
  by (cases p) (simp_all add: valid_elem_def valid_stamps_def valid_link_def)


lemma more_entries_Cons:
  "more_entries ((k, p) # es) = Comma # TString (escape k) # Colon # elem_tokens p @ more_entries es"
  by (simp add: more_entries_def)

lemma more_entries_Nil: "more_entries [] = []"
  by (simp add: more_entries_def)

lemma tokenize_entry:
  assumes "valid_stamps p" and "tokenize s = Some ts"
  shows "tokenize (member_line 1 (appendString k) (elem_doc p) @ s) =
     Some (TString (escape k) # Colon # elem_tokens p @ ts)"
proof -
  have "tokenize (elem_doc p @ s) = Some (elem_tokens p @ ts)"
    using assms by (rule tokenize_elem_doc)
  then have "tokenize (CHR '' '' # elem_doc p @ s) = Some (elem_tokens p @ ts)"
    by (simp add: tokenize_space isSpace_def)
  then have "tokenize (CHR '':'' # CHR '' '' # elem_doc p @ s) = Some (Colon # elem_tokens p @ ts)"
    by (rule tokenize_punct(4))
  then have "tokenize (quote (escape k) @ CHR '':'' # CHR '' '' # elem_doc p @ s) =
      Some (TString (escape k) # Colon # elem_tokens p @ ts)"
    by (rule tokenize_quote[OF escape_scannable])
  then show ?thesis
    by (simp add: member_line_def tokenize_indent appendString_def quote_def)
qed

lemma tokenize_entries:
  assumes "valid_stamps pa"
    and "\<forall>x \<in> set es. valid_stamps (snd x)"
    and "tokenize s = Some ts"
  shows "tokenize (join (map (\<lambda>(k, p). member_line 1 (appendString k) (elem_doc p))
            ((ka, pa) # es)) @ s) =
     Some (TString (escape ka) # Colon # elem_tokens pa @ more_entries es @ ts)"
  using assms(1,2)
proof (induction es arbitrary: ka pa)
  case Nil
  then show ?case
    using tokenize_entry[OF Nil(1) assms(3)] by (simp add: more_entries_Nil)
next
  case (Cons e es)
  obtain k1 p1 where e: "e = (k1, p1)" by (cases e)
  let ?rest = "join (map (\<lambda>(k, p). member_line 1 (appendString k) (elem_doc p))
      ((k1, p1) # es)) @ s"
  have "tokenize ?rest = Some (TString (escape k1) # Colon # elem_tokens p1 @ more_entries es @ ts)"
    using Cons.IH[where ka = k1 and pa = p1] Cons.prems e by simp
  then have "tokenize (nl # ?rest) =
      Some (TString (escape k1) # Colon # elem_tokens p1 @ more_entries es @ ts)"
    by (simp only: tokenize_nl)
  then have "tokenize (CHR '','' # nl # ?rest) =
      Some (Comma # TString (escape k1) # Colon # elem_tokens p1 @ more_entries es @ ts)"
    by (rule tokenize_punct(3))
  then have "tokenize (member_line 1 (appendString ka) (elem_doc pa) @ CHR '','' # nl # ?rest) =
      Some (TString (escape ka) # Colon # elem_tokens pa @
        (Comma # TString (escape k1) # Colon # elem_tokens p1 @ more_entries es @ ts))"
    by (rule tokenize_entry[OF Cons.prems(1)])
  then show ?case
    by (simp add: e more_entries_Cons)
qed

lemma Time_MarshalJSON_valid:
  "valid_time t \<Longrightarrow> Time_MarshalJSON t = Inr (quote (appendFormatRFC3339 t))"
  by (simp add: Time_MarshalJSON_def time_roundtrip(1) quote_def)

lemma marshal_link_valid:
  assumes "valid_stamps (Some l)"
  shows "marshal_link l = Inr (link_doc l)"
proof -
  have t: "Time_MarshalJSON (CreatedAt l) = Inr (quote (appendFormatRFC3339 (CreatedAt l)))"
    "Time_MarshalJSON (UpdatedAt l) = Inr (quote (appendFormatRFC3339 (UpdatedAt l)))"
    using assms by (simp_all add: valid_stamps_def Time_MarshalJSON_valid)
  have m: "link_members l (quote (appendFormatRFC3339 (CreatedAt l)))
      (quote (appendFormatRFC3339 (UpdatedAt l))) =
      map (\<lambda>(n, r). (n, quote r)) (raw_members l)"
    by (simp add: link_members_def raw_members_def appendString_def quote_def)
  have "marshal_link l =
      Inr (''{'' @ [nl] @
           join (map (\<lambda>(n, x). member_line 2 ([dq] @ n @ [dq]) x)
             (map (\<lambda>(n, r). (n, quote r)) (raw_members l))) @
           [nl] @ indent 1 @ ''}'')"
    unfolding marshal_link_def t sum.case m ..
  then show ?thesis
    by (simp add: link_doc_def comp_def split_def quote_def)
qed

lemma marshal_elem_valid: "valid_stamps p \<Longrightarrow> marshal_elem p = Inr (elem_doc p)"
  by (cases p) (simp_all add: marshal_elem_def elem_doc_def marshal_link_valid)

lemma marshal_entries_valid:
  assumes "\<forall>k \<in> set ks. \<exists>p. fmlookup f k = Some p \<and> valid_stamps p"
  shows "marshal_entries f ks =
     Inr (map (\<lambda>k. member_line 1 (appendString k) (elem_doc (the (fmlookup f k)))) ks)"
  using assms
proof (induction ks)
  case Nil
  show ?case by simp
next
  case (Cons k ks)
  then obtain p where p: "fmlookup f k = Some p" "valid_stamps p" by auto
  show ?case
    using Cons p by (simp add: marshal_elem_valid)
qed


lemma parse_more_tokens:
  "parse_next (InObject acc k # st) v (more_tokens ms @ RBrace # ts) =
   parse_next st (JObject (rev acc @ (k, v) # map (\<lambda>(n, r). (n, JString r)) ms)) ts"
proof (induction ms arbitrary: acc k v)
  case Nil
  show ?case by (simp add: more_tokens_Nil)
next
  case (Cons m ms)
  obtain n r where m: "m = (n, r)" by (cases m)
  show ?case
    using Cons.IH[of "(k, v) # acc" n "JString r"]
    by (simp add: m more_tokens_Cons)
qed

lemma parse_link_tokens:
  assumes "length st < maxNestingDepth"
  shows "parse_value st (link_tokens l @ ts) = parse_next st (link_json l) ts"
proof -
  obtain ms where ms: "raw_members l = (''alias'', escape (Alias l)) # ms"
    using raw_members_shape by blast
  show ?thesis
    using assms parse_more_tokens[of "[]" "''alias''" st "JString (escape (Alias l))" ms ts]
    by (simp add: link_tokens_def link_json_def ms more_tokens_Cons)
qed

lemma parse_elem_tokens:
  assumes "length st < maxNestingDepth"
  shows "parse_value st (elem_tokens p @ ts) = parse_next st (elem_json p) ts"
  using parse_link_tokens[OF assms]
  by (cases p) (simp_all add: elem_tokens_def elem_json_def)

lemma parse_more_entries:
  assumes "Suc (length st) < maxNestingDepth"
  shows "parse_next (InObject acc k # st) v (more_entries es @ RBrace # ts) =
     parse_next st (JObject (rev acc @ (k, v) # map (\<lambda>(k, p). (escape k, elem_json p)) es)) ts"
proof (induction es arbitrary: acc k v)
  case Nil
  show ?case by (simp add: more_entries_Nil)
next
  case (Cons e es)
  obtain k1 p1 where e: "e = (k1, p1)" by (cases e)
  have d: "length (InObject ((k, v) # acc) (escape k1) # st) < maxNestingDepth"
    using assms by simp
  show ?case
    using Cons.IH[of "(k, v) # acc" "escape k1" "elem_json p1"]
      parse_elem_tokens[OF d, of p1 "more_entries es @ RBrace # ts"]
    by (simp add: e more_entries_Cons)
qed

lemma parse_document:
  "parse_value [] (LBrace # TString (escape k0) # Colon # elem_tokens p0 @ more_entries es @ [RBrace]) =
     Some (JObject ((escape k0, elem_json p0) # map (\<lambda>(k, p). (escape k, elem_json p)) es))"
proof -
  have d1: "length [InObject [] (escape k0)] < maxNestingDepth"
    by (simp add: maxNestingDepth_def)
  have d2: "Suc (length ([] :: frame list)) < maxNestingDepth"
    by (simp add: maxNestingDepth_def)
  show ?thesis
    using parse_elem_tokens[OF d1, of p0 "more_entries es @ [RBrace]"]
      parse_more_entries[OF d2, of "[]" "escape k0" "elem_json p0" es "[]"]
    by (simp add: maxNestingDepth_def)
qed

lemma unquote_names:
  "unquote ''alias'' = Some ''alias''" "unquote ''url'' = Some ''url''"
  "unquote ''description'' = Some ''description''" "unquote ''category'' = Some ''category''"
  "unquote ''created_at'' = Some ''created_at''" "unquote ''updated_at'' = Some ''updated_at''"
  by (simp_all add: dq_def bs_def)

lemma foldName_names:
  "foldName ''alias'' = ''ALIAS''" "foldName ''url'' = ''URL''"
  "foldName ''description'' = ''DESCRIPTION''" "foldName ''category'' = ''CATEGORY''"
  "foldName ''created_at'' = ''CREATED_AT''" "foldName ''updated_at'' = ''UPDATED_AT''"
  by (simp_all add: between_def char_of_eq_iff take_bit_eq_mod)

lemma store_string_escape:
  "utf8_valid s \<Longrightarrow> store_string (JString (escape s)) cur = Inr s"
  using escape_roundtrip[of s] by (simp add: store_string_def P_escape_def)

lemma store_time_valid:
  "valid_time t \<Longrightarrow> store_time (JString (appendFormatRFC3339 t)) cur = Inr t"
  by (simp add: store_time_def Time_UnmarshalJSON_def time_roundtrip(2))

lemma decode_fields_link:
  assumes "valid_link l"
  shows "decode_fields zero_link (map (\<lambda>(n, r). (n, JString r)) (raw_members l)) = Inr l"
proof -
  have v: "utf8_valid (Alias l)" "utf8_valid (URL l)" "utf8_valid (Description l)"
    "utf8_valid (Category l)" "valid_time (CreatedAt l)" "valid_time (UpdatedAt l)"
    using assms by (simp_all add: valid_link_def)
  have z: "Description zero_link = []" "Category zero_link = []"
    by (simp_all add: zero_link_def)
  have eq: "zero_link\<lparr>Alias := Alias l, URL := URL l, Description := Description l,
      Category := Category l, CreatedAt := CreatedAt l, UpdatedAt := UpdatedAt l\<rparr> = l"
    by (cases l) (simp add: zero_link_def)
  have eq1: "Description l = [] \<Longrightarrow> zero_link\<lparr>Alias := Alias l, URL := URL l,
      Category := Category l, CreatedAt := CreatedAt l, UpdatedAt := UpdatedAt l\<rparr> = l"
    by (cases l) (simp add: zero_link_def)
  have eq2: "Category l = [] \<Longrightarrow> zero_link\<lparr>Alias := Alias l, URL := URL l,
      Description := Description l, CreatedAt := CreatedAt l, UpdatedAt := UpdatedAt l\<rparr> = l"
    by (cases l) (simp add: zero_link_def)
  have eq3: "Description l = [] \<Longrightarrow> Category l = [] \<Longrightarrow> zero_link\<lparr>Alias := Alias l,
      URL := URL l, CreatedAt := CreatedAt l, UpdatedAt := UpdatedAt l\<rparr> = l"
    by (cases l) (simp add: zero_link_def)
  show ?thesis
    using v eq eq1 eq2 eq3
    by (simp add: raw_members_def unquote_names set_field_def foldName_names Let_def
        store_string_escape store_time_valid del: unquote.simps foldName.simps)
qed

lemma decode_elem_json: "valid_elem p \<Longrightarrow> decode_elem (elem_json p) = Inr p"
  by (cases p)
    (simp_all add: decode_elem_def elem_json_def link_json_def valid_elem_def decode_fields_link)

lemma decode_members_entries:
  assumes "\<forall>x \<in> set es. utf8_valid (fst x) \<and> valid_elem (snd x)"
  shows "decode_members f0 (map (\<lambda>(k, p). (escape k, elem_json p)) es) =
     Inr (fold (\<lambda>(k, p). fmupd k p) es f0)"
  using assms
proof (induction es arbitrary: f0)
  case Nil
  show ?case by simp
next
  case (Cons e es)
  obtain k p where e: "e = (k, p)" by (cases e)
  have "unquote (escape k) = Some k"
    using Cons.prems e escape_roundtrip[of k] by (simp add: P_escape_def)
  moreover have "decode_elem (elem_json p) = Inr p"
    using Cons.prems e by (simp add: decode_elem_json)
  ultimately show ?case
    using Cons.IH[of "fmupd k p f0"] Cons.prems by (simp add: e)
qed


lemma fold_fmupd_lookup:
  "fmlookup (fold (\<lambda>(k, p). fmupd k p) (map (\<lambda>k. (k, g k)) ks) f0) x =
     (if x \<in> set ks then Some (g x) else fmlookup f0 x)"
  by (induction ks arbitrary: f0) auto

lemma tokenize_Nil: "tokenize [] = Some []"
  by (simp add: tokenize.simps)

text \<open>
  The members of the document of a map, as the parser returns them: the keys in increasing
  order, each with the raw text of its encoding, and the value of each.
\<close>

definition document_members :: "(string, link option) fmap \<Rightarrow> (string \<times> json) list" where
  "document_members f =
     map (\<lambda>k. (escape k, elem_json (the (fmlookup f k)))) (sorted_list_of_fset (fmdom f))"

definition stamps_ok :: "gomap \<Rightarrow> bool" where
  "stamps_ok m = fmpred (\<lambda>k p. valid_stamps p) (entries m)"

lemma marshal_then_unmarshal_nil:
  "json_MarshalIndent NilMap = Inr ''null'' \<and> json_Unmarshal ''null'' = Inr NilMap"
proof -
  have "tokenize (''null'' @ []) = Some [TNull]"
    by (rule tokenize_null[OF tokenize_Nil])
  then show ?thesis
    by (simp add: json_MarshalIndent_def json_Unmarshal_def)
qed

lemma marshal_then_unmarshal_map:
  assumes v: "stamps_ok (GoMap f)"
  shows "\<exists>data. json_MarshalIndent (GoMap f) = Inr data \<and> data \<noteq> [] \<and>
           json_Unmarshal data = map_sum id GoMap (decode_members fmempty (document_members f))"
proof -
  define ks where "ks = sorted_list_of_fset (fmdom f)"
  define g where "g = (\<lambda>k. the (fmlookup f k))"
  have sk: "set ks = fset (fmdom f)"
    by (simp add: ks_def)
  have val: "\<forall>k \<in> set ks. fmlookup f k = Some (g k) \<and> valid_stamps (g k)"
  proof
    fix k assume "k \<in> set ks"
    then have "k |\<in>| fmdom f" using sk by simp
    then obtain p where p: "fmlookup f k = Some p"
      by (auto simp: fmlookup_dom_iff)
    with v have "valid_stamps p"
      by (auto simp: stamps_ok_def entries_def dest: fmpredD)
    with p show "fmlookup f k = Some (g k) \<and> valid_stamps (g k)"
      by (simp add: g_def)
  qed
  have dm: "document_members f = map (\<lambda>(k, p). (escape k, elem_json p)) (map (\<lambda>k. (k, g k)) ks)"
    by (simp add: document_members_def ks_def g_def comp_def)
  show ?thesis
  proof (cases ks)
    case Nil
    have m0: "json_MarshalIndent (GoMap f) = Inr ''{}''"
      using Nil by (simp add: json_MarshalIndent_def ks_def[symmetric])
    have "tokenize ''{}'' = Some [LBrace, RBrace]"
      using tokenize_punct(1)[OF tokenize_punct(2)[OF tokenize_Nil]] by simp
    then have "json_Unmarshal ''{}'' = map_sum id GoMap (decode_members fmempty [])"
      by (simp add: json_Unmarshal_def maxNestingDepth_def)
    then have "json_Unmarshal ''{}'' =
        map_sum id GoMap (decode_members fmempty (document_members f))"
      using Nil by (simp only: dm list.map)
    with m0 show ?thesis by blast
  next
    case (Cons k0 ks')
    define es where "es = map (\<lambda>k. (k, g k)) ks'"
    have ves: "\<forall>x \<in> set es. valid_stamps (snd x)"
      using val Cons by (auto simp: es_def)
    have v0: "valid_stamps (g k0)"
      using val Cons by simp
    have me: "marshal_entries f ks =
        Inr (map (\<lambda>k. member_line 1 (appendString k) (elem_doc (the (fmlookup f k)))) ks)"
      by (rule marshal_entries_valid) (use val in blast)
    define body where
      "body = join (map (\<lambda>(k, p). member_line 1 (appendString k) (elem_doc p)) ((k0, g k0) # es))"
    have lines: "map (\<lambda>k. member_line 1 (appendString k) (elem_doc (the (fmlookup f k)))) ks =
        map (\<lambda>(k, p). member_line 1 (appendString k) (elem_doc p)) ((k0, g k0) # es)"
      by (simp add: Cons es_def g_def comp_def)
    define data where "data = ''{'' @ [nl] @ body @ [nl] @ ''}''"
    have ne: "ks \<noteq> []"
      using Cons by simp
    have "json_MarshalIndent (GoMap f) =
        Inr (''{'' @ [nl] @
          join (map (\<lambda>k. member_line 1 (appendString k) (elem_doc (the (fmlookup f k)))) ks) @
          [nl] @ ''}'')"
      using ne by (simp add: json_MarshalIndent_def ks_def[symmetric] me)
    then have m: "json_MarshalIndent (GoMap f) = Inr data"
      by (simp only: lines data_def body_def)
    have "tokenize (nl # ''}'') = Some [RBrace]"
      using tokenize_punct(2)[OF tokenize_Nil] by (simp add: tokenize_nl)
    then have "tokenize (body @ nl # ''}'') =
        Some (TString (escape k0) # Colon # elem_tokens (g k0) @ more_entries es @ [RBrace])"
      unfolding body_def by (rule tokenize_entries[OF v0 ves])
    then have "tokenize (nl # body @ nl # ''}'') =
        Some (TString (escape k0) # Colon # elem_tokens (g k0) @ more_entries es @ [RBrace])"
      by (simp only: tokenize_nl)
    then have tk: "tokenize data =
        Some (LBrace # TString (escape k0) # Colon # elem_tokens (g k0) @ more_entries es @ [RBrace])"
      using tokenize_punct(1) by (simp add: data_def)
    have dm2: "document_members f =
        (escape k0, elem_json (g k0)) # map (\<lambda>(k, p). (escape k, elem_json p)) es"
      by (simp add: dm Cons es_def)
    have u: "json_Unmarshal data =
        map_sum id GoMap (decode_members fmempty (document_members f))"
      unfolding json_Unmarshal_def tk option.case parse_document json.case dm2 ..
    have "data \<noteq> []" by (simp add: data_def)
    with m u show ?thesis by blast
  qed
qed

lemma decode_document_members:
  assumes v: "valid_links (GoMap f)"
  shows "decode_members fmempty (document_members f) = Inr f"
proof -
  define ks where "ks = sorted_list_of_fset (fmdom f)"
  define g where "g = (\<lambda>k. the (fmlookup f k))"
  have sk: "set ks = fset (fmdom f)"
    by (simp add: ks_def)
  have val: "\<forall>k \<in> set ks. fmlookup f k = Some (g k) \<and> utf8_valid k \<and> valid_elem (g k)"
  proof
    fix k assume "k \<in> set ks"
    then have "k |\<in>| fmdom f" using sk by simp
    then obtain p where p: "fmlookup f k = Some p"
      by (auto simp: fmlookup_dom_iff)
    with v have "utf8_valid k \<and> valid_elem p"
      by (auto simp: valid_links_def entries_def valid_elem_def dest: fmpredD)
    with p show "fmlookup f k = Some (g k) \<and> utf8_valid k \<and> valid_elem (g k)"
      by (simp add: g_def)
  qed
  have rebuild: "fold (\<lambda>(k, p). fmupd k p) (map (\<lambda>k. (k, g k)) ks) fmempty = f"
  proof (rule fmap_ext)
    fix x
    show "fmlookup (fold (\<lambda>(k, p). fmupd k p) (map (\<lambda>k. (k, g k)) ks) fmempty) x = fmlookup f x"
    proof (cases "x \<in> set ks")
      case True
      then show ?thesis using val by (simp add: fold_fmupd_lookup)
    next
      case False
      then have "x |\<notin>| fmdom f" using sk by simp
      then have "fmlookup f x = None" by (rule fmdom_notD)
      with False show ?thesis by (simp add: fold_fmupd_lookup)
    qed
  qed
  have dm: "document_members f = map (\<lambda>(k, p). (escape k, elem_json p)) (map (\<lambda>k. (k, g k)) ks)"
    by (simp add: document_members_def ks_def g_def comp_def)
  have "decode_members fmempty (map (\<lambda>(k, p). (escape k, elem_json p)) (map (\<lambda>k. (k, g k)) ks)) =
      Inr (fold (\<lambda>(k, p). fmupd k p) (map (\<lambda>k. (k, g k)) ks) fmempty)"
    by (rule decode_members_entries) (use val in auto)
  then show ?thesis
    by (simp only: dm rebuild)
qed

lemma valid_links_stamps: "valid_links m \<Longrightarrow> stamps_ok m"
  by (auto simp: valid_links_def stamps_ok_def fmpred_iff valid_stamps_def valid_link_def
      split: option.splits)

lemma codec_roundtrip:
  assumes "valid_links m"
  shows "\<exists>data. json_MarshalIndent m = Inr data \<and> data \<noteq> [] \<and> json_Unmarshal data = Inr m"
proof (cases m)
  case NilMap
  then show ?thesis using marshal_then_unmarshal_nil by auto
next
  case (GoMap f)
  from marshal_then_unmarshal_map[OF valid_links_stamps[OF assms[unfolded GoMap]]]
  obtain data where "json_MarshalIndent (GoMap f) = Inr data" "data \<noteq> []"
    "json_Unmarshal data = map_sum id GoMap (decode_members fmempty (document_members f))"
    by blast
  then show ?thesis
    using decode_document_members[OF assms[unfolded GoMap]] GoMap by auto
qed

section \<open>Properties of the store\<close>

text \<open>
  The predicate of claim C9: every key maps to a record (not to a nil pointer) whose
  \<open>Alias\<close> field is the key.
\<close>

definition key_consistent :: "gomap \<Rightarrow> bool" where
  "key_consistent m =
     fmpred (\<lambda>k p. case p of None \<Rightarrow> False | Some l \<Rightarrow> Alias l = k) (entries m)"

text \<open>A store with one link, and file systems around it, for the instances below.\<close>

definition ex_time :: time where
  "ex_time = \<lparr>Year = 2024, Month = 1, Day = 2, Hour = 15, Minute = 4, Second = 5,
               Nanosecond = 0, ZoneOffset = 0\<rparr>"

definition ex_link :: link where
  "ex_link = NewLink ex_time ''gh'' ''https://github.com/x'' [] []"

definition ex_store :: JSONStorage where
  "ex_store = \<lparr>filePath = ''/links.json'',
                links = GoMap (fmupd ''gh'' (Some ex_link) fmempty)\<rparr>"

definition ex_fs :: "string \<Rightarrow> filesystem" where
  "ex_fs content = \<lparr>files = [''/links.json'' \<mapsto> content], write_denied = (\<lambda>_. False)\<rparr>"

definition ex_fs_denied :: filesystem where
  "ex_fs_denied = \<lparr>files = Map.empty, write_denied = (\<lambda>_. True)\<rparr>"

lemma lookup_absent_iff: "map_lookup m k = None \<longleftrightarrow> k |\<notin>| fmdom (entries m)"
  by (simp add: map_lookup_def fmdom_notI fmlookup_dom_iff)

text \<open>
  Claim C2 (load atomicity on parse failure). For every store and every non-empty content
  of its file that \<^verbatim>\<open>json.Unmarshal\<close> refuses, \<open>load\<close> returns that error and the
  store, with its in-memory mapping, is as it was before the call.
\<close>

theorem load_parse_failure_keeps_state:
  assumes "files fs (filePath s) = Some data"
    and "data \<noteq> []"
    and "json_Unmarshal data = Inl err"
  shows "load s fs = (Some err, s)"
  using assms by (simp add: load_def os_ReadFile_def)

theorem load_parse_failure_keeps_state_witness:
  "load ex_store (ex_fs ''{'') = (Some SyntaxError, ex_store)"
proof -
  have f: "files (ex_fs ''{'') (filePath ex_store) = Some ''{''"
    by (simp add: ex_fs_def ex_store_def)
  have u: "json_Unmarshal ''{'' = Inl SyntaxError"
    by (simp add: json_Unmarshal_def tokenize.simps isSpace_def)
  show ?thesis
    using load_parse_failure_keeps_state[OF f _ u] by simp
qed

text \<open>
  Claim C3 (empty file). For every store, whatever its mapping holds, \<open>load\<close> on a
  file of length zero returns no error and leaves the empty mapping in memory.
\<close>

theorem load_empty_file:
  assumes "files fs (filePath s) = Some []"
  shows "load s fs = (None, s\<lparr>links := GoMap fmempty\<rparr>)"
  using assms by (simp add: load_def os_ReadFile_def)

theorem load_empty_file_witness:
  "load ex_store (ex_fs []) = (None, ex_store\<lparr>links := GoMap fmempty\<rparr>)"
proof -
  have f: "files (ex_fs []) (filePath ex_store) = Some []"
    by (simp add: ex_fs_def ex_store_def)
  show ?thesis
    using load_empty_file[OF f] .
qed

text \<open>
  Claim C4 (uniqueness). For every store and every link whose alias is already a key of
  the mapping, \<open>Create\<close> fails with \<open>AlreadyExists\<close>; the store is unmodified and the
  file system is untouched, so nothing is written.
\<close>

theorem Create_existing_alias:
  assumes "Alias l |\<in>| fmdom (entries (links s))"
  shows "Create s l fs = (Some AlreadyExists, s, fs)"
proof -
  from assms obtain p where "map_lookup (links s) (Alias l) = Some p"
    by (auto simp: map_lookup_def fmlookup_dom_iff)
  then show ?thesis by (simp add: Create_def)
qed

theorem Create_existing_alias_witness:
  "Create ex_store ex_link (ex_fs []) = (Some AlreadyExists, ex_store, ex_fs [])"
proof -
  have k: "Alias ex_link |\<in>| fmdom (entries (links ex_store))"
    by (simp add: ex_link_def NewLink_def ex_store_def entries_def)
  show ?thesis
    using Create_existing_alias[OF k] .
qed

text \<open>
  Claim C5 (not-found symmetry). For every store and every alias that is not a key of the
  mapping, \<open>Get\<close>, \<open>Update\<close> (of a link with that alias) and \<open>Delete\<close> each fail with
  \<open>NotFound\<close>, leave the store unmodified and do not touch the file system.
\<close>

theorem absent_alias_NotFound:
  assumes "a |\<notin>| fmdom (entries (links s))"
  shows "Get s a fs = (Inl NotFound, s, fs) \<and>
         Update s (l\<lparr>Alias := a\<rparr>) fs = (Some NotFound, s, fs) \<and>
         Delete s a fs = (Some NotFound, s, fs)"
proof -
  from assms have "map_lookup (links s) a = None"
    by (simp add: lookup_absent_iff)
  then show ?thesis by (simp add: Get_def Update_def Delete_def)
qed

theorem absent_alias_NotFound_witness:
  "Get ex_store ''docs'' (ex_fs []) = (Inl NotFound, ex_store, ex_fs []) \<and>
   Update ex_store (ex_link\<lparr>Alias := ''docs''\<rparr>) (ex_fs []) = (Some NotFound, ex_store, ex_fs []) \<and>
   Delete ex_store ''docs'' (ex_fs []) = (Some NotFound, ex_store, ex_fs [])"
proof -
  have k: "''docs'' |\<notin>| fmdom (entries (links ex_store))"
    by (simp add: ex_store_def entries_def)
  show ?thesis
    using absent_alias_NotFound[OF k] .
qed

text \<open>
  Claim C7 (no rollback). For every store and every link whose alias is absent: when the
  insert into the map has happened and the persist step then fails with an error,
  \<open>Create\<close> returns that error and the store it leaves behind still holds the
  inserted link under its alias.
\<close>

theorem Create_no_rollback:
  assumes "Alias l |\<notin>| fmdom (entries (links s))"
    and "map_assign (links s) (Alias l) (Some l) = Some m"
    and "saveWithoutLock (s\<lparr>links := m\<rparr>) fs = (Some err, fs')"
  shows "Create s l fs = (Some err, s\<lparr>links := m\<rparr>, fs') \<and>
         map_lookup (links (fst (snd (Create s l fs)))) (Alias l) = Some (Some l)"
proof -
  from assms(1) have n: "map_lookup (links s) (Alias l) = None"
    by (simp add: lookup_absent_iff)
  from assms(2) have "map_lookup m (Alias l) = Some (Some l)"
    by (auto simp: map_assign_def map_lookup_def entries_def split: gomap.splits)
  with n assms(2,3) show ?thesis by (simp add: Create_def)
qed

theorem Create_no_rollback_witness:
  "Create ex_store (ex_link\<lparr>Alias := ''docs''\<rparr>) ex_fs_denied =
     (Some PathError,
      ex_store\<lparr>links := GoMap (fmupd ''docs'' (Some (ex_link\<lparr>Alias := ''docs''\<rparr>))
                                  (fmupd ''gh'' (Some ex_link) fmempty))\<rparr>,
      ex_fs_denied) \<and>
   map_lookup (links (fst (snd (Create ex_store (ex_link\<lparr>Alias := ''docs''\<rparr>) ex_fs_denied))))
     ''docs'' = Some (Some (ex_link\<lparr>Alias := ''docs''\<rparr>))"
proof -
  let ?l = "ex_link\<lparr>Alias := ''docs''\<rparr>"
  let ?m = "GoMap (fmupd ''docs'' (Some ?l) (fmupd ''gh'' (Some ex_link) fmempty))"
  have k: "Alias ?l |\<notin>| fmdom (entries (links ex_store))"
    by (simp add: ex_store_def entries_def)
  have a: "map_assign (links ex_store) (Alias ?l) (Some ?l) = Some ?m"
    by (simp add: ex_store_def map_assign_def)
  have "case json_MarshalIndent ?m of Inl e \<Rightarrow> False | Inr data \<Rightarrow> True"
    by code_simp
  then obtain data where "json_MarshalIndent ?m = Inr data"
    by (cases "json_MarshalIndent ?m") auto
  then have w: "saveWithoutLock (ex_store\<lparr>links := ?m\<rparr>) ex_fs_denied =
      (Some PathError, ex_fs_denied)"
    by (simp add: saveWithoutLock_def os_WriteFile_def ex_fs_denied_def)
  show ?thesis
    using Create_no_rollback[OF k a w] by (simp add: map_lookup_def entries_def)
qed

text \<open>
  Claim C8 (wholesale overwrite, timestamps not refreshed). After a successful
  \<open>Update\<close> of a link \<open>l\<close> the mapping holds exactly \<open>l\<close> under its alias, so every
  field, \<open>UpdatedAt\<close> included, has the value the caller supplied; \<open>NewLink\<close> is where
  both timestamps are set, to the time of construction.
\<close>

theorem Update_overwrites_wholesale:
  assumes "fst (Update s l fs) = None"
  shows "map_lookup (links (fst (snd (Update s l fs)))) (Alias l) = Some (Some l) \<and>
         CreatedAt (NewLink now a u d c) = now \<and> UpdatedAt (NewLink now a u d c) = now"
proof -
  from assms obtain p where p: "map_lookup (links s) (Alias l) = Some p"
    by (cases "map_lookup (links s) (Alias l)") (auto simp: Update_def)
  then obtain f where f: "links s = GoMap f"
    by (cases "links s") (auto simp: map_lookup_def entries_def)
  show ?thesis
    using p f
    by (simp add: Update_def map_assign_def map_lookup_def entries_def NewLink_def Let_def
        split: prod.splits)
qed

theorem Update_overwrites_wholesale_witness:
  "fst (Update ex_store (ex_link\<lparr>URL := ''https://example.org''\<rparr>) (ex_fs [])) = None \<and>
   map_lookup (links (fst (snd (Update ex_store (ex_link\<lparr>URL := ''https://example.org''\<rparr>)
     (ex_fs []))))) ''gh'' = Some (Some (ex_link\<lparr>URL := ''https://example.org''\<rparr>)) \<and>
   UpdatedAt (NewLink ex_time ''gh'' ''https://github.com/x'' [] []) = ex_time"
proof -
  have ok: "fst (Update ex_store (ex_link\<lparr>URL := ''https://example.org''\<rparr>) (ex_fs [])) = None"
    by code_simp
  have al: "Alias (ex_link\<lparr>URL := ''https://example.org''\<rparr>) = ''gh''"
    by (simp add: ex_link_def NewLink_def)
  show ?thesis
    using Update_overwrites_wholesale[OF ok, of ex_time "''gh''" "''https://github.com/x''" "[]" "[]"]
      ok al by simp
qed

lemma key_consistent_iff:
  "key_consistent m \<longleftrightarrow>
     (\<forall>k p. map_lookup m k = Some p \<longrightarrow> (\<exists>l. p = Some l \<and> Alias l = k))"
proof
  assume a: "key_consistent m"
  show "\<forall>k p. map_lookup m k = Some p \<longrightarrow> (\<exists>l. p = Some l \<and> Alias l = k)"
  proof (intro allI impI)
    fix k p assume "map_lookup m k = Some p"
    with a have "case p of None \<Rightarrow> False | Some l \<Rightarrow> Alias l = k"
      by (simp add: key_consistent_def fmpred_iff map_lookup_def)
    then show "\<exists>l. p = Some l \<and> Alias l = k"
      by (cases p) auto
  qed
next
  assume "\<forall>k p. map_lookup m k = Some p \<longrightarrow> (\<exists>l. p = Some l \<and> Alias l = k)"
  then show "key_consistent m"
    by (fastforce simp: key_consistent_def fmpred_iff map_lookup_def)
qed

text \<open>
  Claim C9 (key and record agree). If every key of the mapping maps to a record whose
  \<open>Alias\<close> is that key, the same holds of the store that \<open>Create\<close>, \<open>Update\<close> and
  \<open>Delete\<close> leave behind, whether they succeed or fail.
\<close>

theorem key_consistency_preserved:
  assumes "key_consistent (links s)"
  shows "key_consistent (links (fst (snd (Create s l fs)))) \<and>
         key_consistent (links (fst (snd (Update s l fs)))) \<and>
         key_consistent (links (fst (snd (Delete s a fs))))"
proof (intro conjI)
  show "key_consistent (links (fst (snd (Create s l fs))))"
    using assms
    by (cases "links s")
      (auto simp: Create_def key_consistent_iff map_lookup_def map_assign_def entries_def
        Let_def split: option.splits prod.splits if_splits)
  show "key_consistent (links (fst (snd (Update s l fs))))"
    using assms
    by (cases "links s")
      (auto simp: Update_def key_consistent_iff map_lookup_def map_assign_def entries_def
        Let_def split: option.splits prod.splits if_splits)
  show "key_consistent (links (fst (snd (Delete s a fs))))"
    using assms
    by (cases "links s")
      (auto simp: Delete_def key_consistent_iff map_lookup_def map_delete_def entries_def
        Let_def split: option.splits prod.splits if_splits)
qed

theorem key_consistency_preserved_witness:
  "key_consistent (links ex_store) \<and>
   key_consistent (links (fst (snd (Create ex_store (ex_link\<lparr>Alias := ''docs''\<rparr>) (ex_fs []))))) \<and>
   key_consistent (links (fst (snd (Update ex_store ex_link (ex_fs []))))) \<and>
   key_consistent (links (fst (snd (Delete ex_store ''gh'' (ex_fs [])))))"
proof -
  have k: "key_consistent (links ex_store)"
    by (simp add: key_consistent_iff ex_store_def map_lookup_def entries_def ex_link_def
        NewLink_def)
  show ?thesis
    using key_consistency_preserved[OF k] k by simp
qed

text \<open>
  Claim C10 (readers are pure). \<open>Get\<close> and \<open>List\<close> leave the store and the file
  system as they are, whatever they return; and for every order in which \<^verbatim>\<open>range\<close>
  visits the keys, \<open>List\<close> returns one entry per alias (the value of the key visited at
  that position), as many as the mapping has aliases.
\<close>

theorem readers_are_pure:
  "snd (Get s a fs) = (s, fs) \<and> snd (List s ks fs) = (s, fs) \<and>
   (range_order (links s) ks \<longrightarrow>
      length (fst (List s ks fs)) = fcard (fmdom (entries (links s))) \<and>
      list_all2 (\<lambda>k p. map_lookup (links s) k = Some p) ks (fst (List s ks fs)))"
proof (intro conjI impI)
  show "snd (Get s a fs) = (s, fs)"
    by (simp add: Get_def split: option.splits)
  show "snd (List s ks fs) = (s, fs)"
    by (simp add: List_def)
next
  assume r: "range_order (links s) ks"
  then have d: "distinct ks" and k: "fset_of_list ks = fmdom (entries (links s))"
    by (simp_all add: range_order_def)
  have all: "\<forall>x \<in> set ks. \<exists>p. map_lookup (links s) x = Some p"
  proof
    fix x assume "x \<in> set ks"
    then have "x |\<in>| fmdom (entries (links s))"
      using k by (metis fset_of_list_elem)
    then show "\<exists>p. map_lookup (links s) x = Some p"
      by (simp add: map_lookup_def fmlookup_dom_iff)
  qed
  have gen: "\<And>xs. \<forall>x \<in> set xs. \<exists>p. map_lookup (links s) x = Some p \<Longrightarrow>
      list_all2 (\<lambda>k p. map_lookup (links s) k = Some p) xs
        (List.map_filter (map_lookup (links s)) xs)"
  proof -
    fix xs show "\<forall>x \<in> set xs. \<exists>p. map_lookup (links s) x = Some p \<Longrightarrow>
      list_all2 (\<lambda>k p. map_lookup (links s) k = Some p) xs
        (List.map_filter (map_lookup (links s)) xs)"
      by (induction xs) (auto simp: List.map_filter_simps)
  qed
  show l2: "list_all2 (\<lambda>k p. map_lookup (links s) k = Some p) ks (fst (List s ks fs))"
    using gen[OF all] by (simp add: List_def)
  have "length (fst (List s ks fs)) = length ks"
    using l2 by (simp add: list_all2_lengthD)
  also have "\<dots> = card (set ks)"
    using d by (simp add: distinct_card)
  also have "\<dots> = fcard (fset_of_list ks)"
    by (simp add: fcard.rep_eq fset_of_list.rep_eq)
  finally show "length (fst (List s ks fs)) = fcard (fmdom (entries (links s)))"
    using k by simp
qed

theorem readers_are_pure_witness:
  "snd (Get ex_store ''gh'' (ex_fs [])) = (ex_store, ex_fs []) \<and>
   snd (List ex_store [''gh''] (ex_fs [])) = (ex_store, ex_fs []) \<and>
   range_order (links ex_store) [''gh''] \<and>
   length (fst (List ex_store [''gh''] (ex_fs []))) = fcard (fmdom (entries (links ex_store))) \<and>
   fst (List ex_store [''gh''] (ex_fs [])) = [Some ex_link]"
proof -
  have r: "range_order (links ex_store) [''gh'']"
    by (simp add: range_order_def ex_store_def entries_def)
  have v: "fst (List ex_store [''gh''] (ex_fs [])) = [Some ex_link]"
    by (simp add: List_def ex_store_def map_lookup_def entries_def List.map_filter_simps)
  show ?thesis
    using readers_are_pure[of ex_store "''gh''" "ex_fs []" "[''gh'']"] r v by simp
qed

section \<open>Persisting and loading again\<close>

text \<open>
  \<open>reloads s fs\<close>: a fresh instance constructed on the path of \<open>s\<close> over the file
  system \<open>fs\<close> is exactly the store \<open>s\<close>.
\<close>

definition reloads :: "JSONStorage \<Rightarrow> filesystem \<Rightarrow> bool" where
  "reloads s fs \<longleftrightarrow> NewJSONStorage (filePath s) fs = Inr s"

text \<open>
  A link with a two-byte rune in its alias, characters that are escaped in its URL and
  description, and a timestamp with a fraction and a negative zone offset; and the link
  that \<^verbatim>\<open>golink add\<close> constructs for an alias that is the single byte \<^verbatim>\<open>0xFF\<close>.
\<close>

definition ex_time2 :: time where
  "ex_time2 = \<lparr>Year = 2024, Month = 2, Day = 29, Hour = 23, Minute = 59, Second = 59,
                Nanosecond = 120000000, ZoneOffset = - 18000\<rparr>"

definition ex_link2 :: link where
  "ex_link2 = \<lparr>Alias = ''caf'' @ [CHR 0xC3, CHR 0xA9], URL = ''https://example.org/?q=<a&b>'',
                Description = ''say '' @ [dq] @ ''hi'' @ [dq], Category = [],
                CreatedAt = ex_time, UpdatedAt = ex_time2\<rparr>"

definition ex_store2 :: JSONStorage where
  "ex_store2 = \<lparr>filePath = ''/links.json'',
                 links = GoMap (fmupd (''caf'' @ [CHR 0xC3, CHR 0xA9]) (Some ex_link2)
                                  (fmupd ''gh'' (Some ex_link) fmempty))\<rparr>"

definition bad_link :: link where
  "bad_link = NewLink ex_time [CHR 0xFF] ''https://github.com/x'' [] []"

definition empty_store :: JSONStorage where
  "empty_store = \<lparr>filePath = ''/links.json'', links = GoMap fmempty\<rparr>"

definition no_files :: filesystem where
  "no_files = \<lparr>files = Map.empty, write_denied = (\<lambda>_. False)\<rparr>"

lemma save_reloads:
  assumes sv: "saveWithoutLock s fs = (None, fs')" and v: "valid_links (links s)"
  shows "reloads s fs'" and "load (s\<lparr>links := m0\<rparr>) fs' = (None, s)"
proof -
  from codec_roundtrip[OF v] obtain data where
    d: "json_MarshalIndent (links s) = Inr data" "data \<noteq> []"
      "json_Unmarshal data = Inr (links s)"
    by blast
  from sv d(1) have w: "os_WriteFile fs (filePath s) data = (None, fs')"
    by (simp add: saveWithoutLock_def)
  then have f: "files fs' (filePath s) = Some data"
    by (auto simp: os_WriteFile_def split: if_splits)
  show "load (s\<lparr>links := m0\<rparr>) fs' = (None, s)"
    using f d(2,3) by (simp add: load_def os_ReadFile_def)
  have "load \<lparr>filePath = filePath s, links = GoMap fmempty\<rparr> fs' = (None, s)"
    using f d(2,3) by (simp add: load_def os_ReadFile_def)
  then show "reloads s fs'"
    using f by (simp add: reloads_def NewJSONStorage_def)
qed

text \<open>
  Claim C1 (round trip). For every store whose mapping is valid (the empty mapping and
  the nil map included) and whose file can be written, \<open>saveWithoutLock\<close> succeeds, and
  \<open>load\<close> on the file it wrote, by a store on the same path whatever mapping \<open>m0\<close> that
  store holds, succeeds and leaves exactly the original mapping in memory: the same keys,
  and for each key the same record, field by field.
\<close>

theorem save_load_roundtrip:
  assumes "valid_links (links s)" and "\<not> write_denied fs (filePath s)"
  shows "fst (saveWithoutLock s fs) = None \<and>
         load (s\<lparr>links := m0\<rparr>) (snd (saveWithoutLock s fs)) = (None, s)"
proof -
  from codec_roundtrip[OF assms(1)] obtain data where
    d: "json_MarshalIndent (links s) = Inr data"
    by blast
  then have sv: "saveWithoutLock s fs = (None, snd (saveWithoutLock s fs))"
    using assms(2) by (simp add: saveWithoutLock_def os_WriteFile_def)
  then have "fst (saveWithoutLock s fs) = None"
    by (metis fst_conv)
  moreover have "load (s\<lparr>links := m0\<rparr>) (snd (saveWithoutLock s fs)) = (None, s)"
    using save_reloads(2)[OF sv assms(1)] .
  ultimately show ?thesis ..
qed

lemma utf8_valid_ascii: "list_all (\<lambda>c. (of_char c :: nat) < 0x80) s \<Longrightarrow> utf8_valid s"
  by (induction s) (simp_all add: rune_width_def)

lemma ex_valid: "valid_links (links ex_store2)"
proof -
  have t: "valid_time ex_time" "valid_time ex_time2"
    by (simp_all add: valid_time_def ex_time_def ex_time2_def daysIn_def isLeap_def)
  have a: "utf8_valid ''gh''" "utf8_valid ''https://github.com/x''" "utf8_valid []"
    "utf8_valid ''https://example.org/?q=<a&b>''" "utf8_valid (''say '' @ [dq] @ ''hi'' @ [dq])"
    by (rule utf8_valid_ascii, simp add: dq_def)+
  have c: "utf8_valid (''caf'' @ [CHR 0xC3, CHR 0xA9])"
    by (simp add: rune_width_def tail_ok_def between_def)
  have "valid_link ex_link" "valid_link ex_link2"
    using t a c by (simp_all add: valid_link_def ex_link_def ex_link2_def NewLink_def)
  then show ?thesis
    using a c by (auto simp: valid_links_def ex_store2_def entries_def intro!: fmpred_upd)
qed

theorem save_load_roundtrip_witness:
  "fst (saveWithoutLock ex_store2 (ex_fs [])) = None \<and>
   load (ex_store2\<lparr>links := GoMap fmempty\<rparr>) (snd (saveWithoutLock ex_store2 (ex_fs []))) =
     (None, ex_store2) \<and>
   fst (saveWithoutLock empty_store (ex_fs [])) = None \<and>
   load (empty_store\<lparr>links := links ex_store2\<rparr>) (snd (saveWithoutLock empty_store (ex_fs []))) =
     (None, empty_store)"
proof -
  have w: "\<not> write_denied (ex_fs []) (filePath ex_store2)"
    "\<not> write_denied (ex_fs []) (filePath empty_store)"
    by (simp_all add: ex_fs_def)
  have e: "valid_links (links empty_store)"
    by (simp add: valid_links_def empty_store_def entries_def)
  show ?thesis
    using save_load_roundtrip[OF ex_valid w(1), of "GoMap fmempty"]
      save_load_roundtrip[OF e w(2), of "links ex_store2"]
    by simp
qed


lemma mutation_results:
  assumes "r = Create s l fs \<or> r = Update s l fs \<or> r = Delete s a fs" and "fst r = None"
  shows "saveWithoutLock (fst (snd r)) fs = (None, snd (snd r))"
  using assms
  by (auto simp: Create_def Update_def Delete_def Let_def
      split: option.splits prod.splits)

text \<open>
  Claim C6 (mutation persistence), for valid mappings. After a successful \<open>Create\<close>,
  \<open>Update\<close> or \<open>Delete\<close> that leaves a valid mapping in memory, a fresh instance
  constructed on the backing file holds exactly the store the operation left behind:
  the document was written before the operation returned, and it parses to the mapping
  in memory.
\<close>

theorem mutation_persisted:
  assumes "r = Create s l fs \<or> r = Update s l fs \<or> r = Delete s a fs"
    and "fst r = None"
    and "valid_links (links (fst (snd r)))"
  shows "reloads (fst (snd r)) (snd (snd r))"
  using save_reloads(1)[OF mutation_results[OF assms(1,2)] assms(3)] .

theorem mutation_persisted_witness:
  "fst (Create ex_store (ex_link2\<lparr>Alias := ''docs''\<rparr>) (ex_fs [])) = None \<and>
   reloads (fst (snd (Create ex_store (ex_link2\<lparr>Alias := ''docs''\<rparr>) (ex_fs []))))
     (snd (snd (Create ex_store (ex_link2\<lparr>Alias := ''docs''\<rparr>) (ex_fs [])))) \<and>
   fst (Update ex_store2 (ex_link\<lparr>URL := ''https://example.org''\<rparr>) (ex_fs [])) = None \<and>
   reloads (fst (snd (Update ex_store2 (ex_link\<lparr>URL := ''https://example.org''\<rparr>) (ex_fs []))))
     (snd (snd (Update ex_store2 (ex_link\<lparr>URL := ''https://example.org''\<rparr>) (ex_fs [])))) \<and>
   fst (Delete ex_store2 ''gh'' (ex_fs [])) = None \<and>
   reloads (fst (snd (Delete ex_store2 ''gh'' (ex_fs []))))
     (snd (snd (Delete ex_store2 ''gh'' (ex_fs []))))"
proof -
  let ?c = "Create ex_store (ex_link2\<lparr>Alias := ''docs''\<rparr>) (ex_fs [])"
  let ?u = "Update ex_store2 (ex_link\<lparr>URL := ''https://example.org''\<rparr>) (ex_fs [])"
  let ?d = "Delete ex_store2 ''gh'' (ex_fs [])"
  have t: "valid_time ex_time" "valid_time ex_time2"
    by (simp_all add: valid_time_def ex_time_def ex_time2_def daysIn_def isLeap_def)
  have a: "utf8_valid ''gh''" "utf8_valid ''https://github.com/x''" "utf8_valid []"
    "utf8_valid ''https://example.org/?q=<a&b>''" "utf8_valid (''say '' @ [dq] @ ''hi'' @ [dq])"
    "utf8_valid ''docs''" "utf8_valid ''https://example.org''"
    by (rule utf8_valid_ascii, simp add: dq_def)+
  have c: "utf8_valid (''caf'' @ [CHR 0xC3, CHR 0xA9])"
    by (simp add: rune_width_def tail_ok_def between_def)
  have vl: "valid_link ex_link" "valid_link ex_link2" "valid_link (ex_link2\<lparr>Alias := ''docs''\<rparr>)"
    "valid_link (ex_link\<lparr>URL := ''https://example.org''\<rparr>)"
    using t a c by (simp_all add: valid_link_def ex_link_def ex_link2_def NewLink_def)
  have lc: "links (fst (snd ?c)) =
      GoMap (fmupd ''docs'' (Some (ex_link2\<lparr>Alias := ''docs''\<rparr>)) (fmupd ''gh'' (Some ex_link) fmempty))"
    by (simp add: Create_def ex_store_def map_lookup_def entries_def map_assign_def ex_link2_def
        Let_def split: prod.splits)
  have lu: "links (fst (snd ?u)) =
      GoMap (fmupd ''gh'' (Some (ex_link\<lparr>URL := ''https://example.org''\<rparr>))
        (fmupd (''caf'' @ [CHR 0xC3, CHR 0xA9]) (Some ex_link2) (fmupd ''gh'' (Some ex_link) fmempty)))"
    by (simp add: Update_def ex_store2_def map_lookup_def entries_def map_assign_def ex_link_def
        NewLink_def Let_def split: prod.splits)
  have ld: "links (fst (snd ?d)) =
      GoMap (fmdrop ''gh'' (fmupd (''caf'' @ [CHR 0xC3, CHR 0xA9]) (Some ex_link2)
        (fmupd ''gh'' (Some ex_link) fmempty)))"
    by (simp add: Delete_def ex_store2_def map_lookup_def entries_def map_delete_def
        Let_def split: prod.splits)
  have vc: "valid_links (links (fst (snd ?c)))"
    unfolding lc using vl a by (auto simp: valid_links_def entries_def intro!: fmpred_upd)
  have vu: "valid_links (links (fst (snd ?u)))"
    unfolding lu using vl a c by (auto simp: valid_links_def entries_def intro!: fmpred_upd)
  have vd: "valid_links (links (fst (snd ?d)))"
    unfolding ld using vl a c
    by (auto simp: valid_links_def entries_def intro!: fmpred_drop fmpred_upd)
  have sc: "fst ?c = None"
  proof -
    obtain data where "json_MarshalIndent (links (fst (snd ?c))) = Inr data"
      using codec_roundtrip[OF vc] by blast
    then show ?thesis
      unfolding lc
      by (simp add: Create_def ex_store_def map_lookup_def entries_def map_assign_def ex_link2_def
          Let_def saveWithoutLock_def os_WriteFile_def ex_fs_def split: prod.splits)
  qed
  have su: "fst ?u = None"
  proof -
    obtain data where "json_MarshalIndent (links (fst (snd ?u))) = Inr data"
      using codec_roundtrip[OF vu] by blast
    then show ?thesis
      unfolding lu
      by (simp add: Update_def ex_store2_def map_lookup_def entries_def map_assign_def ex_link_def
          NewLink_def Let_def saveWithoutLock_def os_WriteFile_def ex_fs_def split: prod.splits)
  qed
  have sd: "fst ?d = None"
  proof -
    obtain data where "json_MarshalIndent (links (fst (snd ?d))) = Inr data"
      using codec_roundtrip[OF vd] by blast
    then show ?thesis
      unfolding ld
      by (simp add: Delete_def ex_store2_def map_lookup_def entries_def map_delete_def
          Let_def saveWithoutLock_def os_WriteFile_def ex_fs_def split: prod.splits)
  qed
  show ?thesis
    using sc su sd
      mutation_persisted[of ?c ex_store "ex_link2\<lparr>Alias := ''docs''\<rparr>" "ex_fs []", OF _ sc vc]
      mutation_persisted[of ?u ex_store2 "ex_link\<lparr>URL := ''https://example.org''\<rparr>" "ex_fs []",
        OF _ su vu]
      mutation_persisted[of ?d ex_store2 _ "ex_fs []" "''gh''", OF _ sd vd]
    by blast
qed


lemma bad_link_decodes:
  "decode_members fmempty (document_members (fmupd [CHR 0xFF] (Some bad_link) fmempty)) =
     Inr (fmupd [CHR 0xEF, CHR 0xBF, CHR 0xBD]
            (Some (bad_link\<lparr>Alias := [CHR 0xEF, CHR 0xBF, CHR 0xBD]\<rparr>)) fmempty)"
proof -
  have s: "sorted_list_of_fset {|[CHR 0xFF]|} = [[CHR 0xFF]]"
    by (simp add: sorted_list_of_fset.rep_eq)
  have e: "escape [CHR 0xFF] = [bs, CHR ''u'', CHR ''f'', CHR ''f'', CHR ''f'', CHR ''d'']"
    by (simp add: rune_width_def)
  have r: "EncodeRune 0xFFFD = [CHR 0xEF, CHR 0xBF, CHR 0xBD]"
    by (simp add: EncodeRune_def Let_def char_of_eq_iff take_bit_eq_mod)
  have g: "getu4 [bs, CHR ''u'', CHR ''f'', CHR ''f'', CHR ''f'', CHR ''d''] = Some 0xFFFD"
    by (simp add: getu4_def isHex_def hexval_def between_def)
  have u: "unquote (escape [CHR 0xFF]) = Some [CHR 0xEF, CHR 0xBF, CHR 0xBD]"
    unfolding e using g r by (simp add: dq_def bs_def)
  have v: "valid_time ex_time"
    by (simp add: valid_time_def ex_time_def daysIn_def)
  have "utf8_valid ''https://github.com/x''"
    by (rule utf8_valid_ascii) simp
  then have eu: "unquote (escape ''https://github.com/x'') = Some ''https://github.com/x''"
    using escape_roundtrip by (simp add: P_escape_def del: escape.simps unquote.simps)
  have m: "document_members (fmupd [CHR 0xFF] (Some bad_link) fmempty) =
      [(escape [CHR 0xFF], elem_json (Some bad_link))]"
    by (simp add: document_members_def s del: escape.simps)
  have z: "zero_link\<lparr>Alias := [CHR 0xEF, CHR 0xBF, CHR 0xBD], URL := ''https://github.com/x'',
      CreatedAt := ex_time, UpdatedAt := ex_time\<rparr> =
      bad_link\<lparr>Alias := [CHR 0xEF, CHR 0xBF, CHR 0xBD]\<rparr>"
    by (simp add: zero_link_def bad_link_def NewLink_def)
  have f: "decode_fields zero_link (map (\<lambda>(n, r). (n, JString r)) (raw_members bad_link)) =
      Inr (bad_link\<lparr>Alias := [CHR 0xEF, CHR 0xBF, CHR 0xBD]\<rparr>)"
    using z
    by (simp add: raw_members_def bad_link_def NewLink_def u eu unquote_names set_field_def
        foldName_names Let_def store_string_def store_time_valid[OF v]
        del: unquote.simps foldName.simps escape.simps)
  show ?thesis
    unfolding m using f
    by (simp add: u decode_elem_def elem_json_def link_json_def
        del: unquote.simps escape.simps)
qed

text \<open>
  Claim C6 (mutation persistence) does not hold of every store: \<open>Create\<close> of a link
  whose alias is the byte \<^verbatim>\<open>0xFF\<close> succeeds, the encoder writes the key and the alias as
  the escape of U+FFFD, and the document parses to a mapping under the three-byte key of
  U+FFFD, which is not the mapping in memory.
\<close>

theorem mutation_persisted_counterexample:
  "fst (Create empty_store bad_link no_files) = None \<and>
   links (fst (snd (Create empty_store bad_link no_files))) =
     GoMap (fmupd [CHR 0xFF] (Some bad_link) fmempty) \<and>
   (\<exists>data. files (snd (snd (Create empty_store bad_link no_files))) ''/links.json'' = Some data \<and>
      json_Unmarshal data =
        Inr (GoMap (fmupd [CHR 0xEF, CHR 0xBF, CHR 0xBD]
               (Some (bad_link\<lparr>Alias := [CHR 0xEF, CHR 0xBF, CHR 0xBD]\<rparr>)) fmempty))) \<and>
   \<not> reloads (fst (snd (Create empty_store bad_link no_files)))
         (snd (snd (Create empty_store bad_link no_files)))"
proof -
  let ?f = "fmupd [CHR 0xFF] (Some bad_link) fmempty"
  let ?g = "fmupd [CHR 0xEF, CHR 0xBF, CHR 0xBD]
      (Some (bad_link\<lparr>Alias := [CHR 0xEF, CHR 0xBF, CHR 0xBD]\<rparr>)) fmempty"
  let ?s = "empty_store\<lparr>links := GoMap ?f\<rparr>"
  have v: "valid_time ex_time"
    by (simp add: valid_time_def ex_time_def daysIn_def)
  have "stamps_ok (GoMap ?f)"
    using v by (auto simp: stamps_ok_def entries_def valid_stamps_def bad_link_def NewLink_def
        intro!: fmpred_upd)
  from marshal_then_unmarshal_map[OF this] obtain data where
    d: "json_MarshalIndent (GoMap ?f) = Inr data" "data \<noteq> []"
      "json_Unmarshal data = Inr (GoMap ?g)"
    by (auto simp: bad_link_decodes)
  let ?fs = "no_files\<lparr>files := (files no_files)(''/links.json'' \<mapsto> data)\<rparr>"
  have c: "Create empty_store bad_link no_files = (None, ?s, ?fs)"
    using d(1)
    by (simp add: Create_def empty_store_def map_lookup_def entries_def map_assign_def
        bad_link_def NewLink_def Let_def saveWithoutLock_def os_WriteFile_def no_files_def)
  have ne: "?g \<noteq> ?f"
  proof
    assume "?g = ?f"
    then have "fmlookup ?g [CHR 0xFF] = fmlookup ?f [CHR 0xFF]" by simp
    then show False by simp
  qed
  have n: "NewJSONStorage ''/links.json'' ?fs = Inr \<lparr>filePath = ''/links.json'', links = GoMap ?g\<rparr>"
    using d(2,3)
    by (simp add: NewJSONStorage_def load_def os_ReadFile_def)
  have "\<not> reloads ?s ?fs"
    using ne by (simp add: reloads_def empty_store_def n)
  moreover have "files ?fs ''/links.json'' = Some data"
    by simp
  ultimately show ?thesis
    unfolding c using d(3) by (simp add: empty_store_def)
qed

end
